theory Spec2Isabelle
  imports Main "HOL-Library.AList"
begin

section \<open>Outcomes of Python code\<close>

text \<open>
  The program is \<^verbatim>\<open>app.py\<close>: a Flask application that fetches fuel-price feeds, stores a
  daily snapshot through SQLAlchemy and pandas, and serves \<^verbatim>\<open>GET /api/prices\<close>.

  A Python call either returns a value or raises. The third outcome, \<open>Unmodelled\<close>, marks
  the inputs on which this development does not say what the libraries (json, pandas, re,
  the database driver) do; it is never caught by an \<^verbatim>\<open>except\<close> clause of the model and
  no theorem draws a conclusion from it.
\<close>

datatype exn =
    ConnectionError
  | JSONDecodeError
  | AttributeError
  | KeyError
  | TypeError
  | DatabaseError

datatype 'a res = Ok 'a | Raise exn | Unmodelled

fun bind_res :: "'a res \<Rightarrow> ('a \<Rightarrow> 'b res) \<Rightarrow> 'b res" where
  "bind_res (Ok x) f = f x"
| "bind_res (Raise e) f = Raise e"
| "bind_res Unmodelled f = Unmodelled"

section \<open>Python objects that come from JSON\<close>

text \<open>
  The values \<^verbatim>\<open>json.loads\<close> produces: \<^verbatim>\<open>None\<close>, \<^verbatim>\<open>bool\<close>, \<^verbatim>\<open>int\<close> (unbounded),
  \<^verbatim>\<open>float\<close>, \<^verbatim>\<open>str\<close>, \<^verbatim>\<open>list\<close> and \<^verbatim>\<open>dict\<close> with string keys (an association list in
  insertion order).

  A \<^verbatim>\<open>str\<close> is a \<open>string\<close>: a list of code points below 256. A \<^verbatim>\<open>float\<close> is
  represented by the literal \<^verbatim>\<open>float.__repr__\<close> prints for it (\<^verbatim>\<open>1.45\<close>, \<^verbatim>\<open>1e+16\<close>,
  \<^verbatim>\<open>NaN\<close>, \<^verbatim>\<open>Infinity\<close>, \<^verbatim>\<open>-Infinity\<close>): Python guarantees that \<^verbatim>\<open>float(repr(x))\<close> is
  \<open>x\<close>, so the literal names the float. The program never calculates with a float; it
  only passes them on. A float literal of a JSON text that is not in \<^verbatim>\<open>repr\<close> form is
  kept as it was written.
\<close>

datatype json =
    JNull
  | JBool bool
  | JInt int
  | JFloat string
  | JStr string
  | JArr "json list"
  | JObj "(string \<times> json) list"

abbreviation DQ :: char where "DQ \<equiv> CHR 0x22"
abbreviation BS :: char where "BS \<equiv> CHR 0x5C"

text \<open>The missing-value marker of pandas is the float \<^verbatim>\<open>nan\<close>.\<close>

abbreviation NaN :: json where "NaN \<equiv> JFloat ''NaN''"

subsection \<open>\<^verbatim>\<open>json.dumps\<close>\<close>

text \<open>
  \<^verbatim>\<open>json.dumps(obj)\<close> with its defaults: \<^verbatim>\<open>ensure_ascii=True\<close>, separators \<^verbatim>\<open>', '\<close> and
  \<^verbatim>\<open>': '\<close>, \<^verbatim>\<open>allow_nan=True\<close>. \<open>digit_char\<close> and \<open>show_nat\<close> are \<^verbatim>\<open>int.__repr__\<close>;
  \<open>escape_char\<close> is the replacement function of \<^verbatim>\<open>py_encode_basestring_ascii\<close>.
\<close>

definition digit_char :: "nat \<Rightarrow> char" where
  "digit_char d = char_of (48 + d)"

fun show_nat :: "nat \<Rightarrow> string" where
  "show_nat n = (if n < 10 then [digit_char n] else show_nat (n div 10) @ [digit_char (n mod 10)])"

declare show_nat.simps [simp del]

definition show_int :: "int \<Rightarrow> string" where
  "show_int i = (if i < 0 then CHR ''-'' # show_nat (nat (- i)) else show_nat (nat i))"

definition hex_char :: "nat \<Rightarrow> char" where
  "hex_char d = (if d < 10 then char_of (48 + d) else char_of (87 + d))"

definition escape_char :: "char \<Rightarrow> string" where
  "escape_char c =
     (if c = DQ then [BS, DQ]
      else if c = BS then [BS, BS]
      else if c = CHR 0x0A then [BS, CHR ''n'']
      else if c = CHR 0x0D then [BS, CHR ''r'']
      else if c = CHR 0x09 then [BS, CHR ''t'']
      else if c = CHR 0x08 then [BS, CHR ''b'']
      else if c = CHR 0x0C then [BS, CHR ''f'']
      else if 32 \<le> (of_char c :: nat) \<and> (of_char c :: nat) \<le> 126 then [c]
      else [BS, CHR ''u'', CHR ''0'', CHR ''0'',
            hex_char (of_char c div 16), hex_char (of_char c mod 16)])"

definition encode_str :: "string \<Rightarrow> string" where
  "encode_str s = DQ # concat (map escape_char s) @ [DQ]"

fun join :: "string \<Rightarrow> string list \<Rightarrow> string" where
  "join sep [] = []"
| "join sep [x] = x"
| "join sep (x # y # ys) = x @ sep @ join sep (y # ys)"

fun json_dumps :: "json \<Rightarrow> string" where
  "json_dumps JNull = ''null''"
| "json_dumps (JBool b) = (if b then ''true'' else ''false'')"
| "json_dumps (JInt i) = show_int i"
| "json_dumps (JFloat r) = r"
| "json_dumps (JStr s) = encode_str s"
| "json_dumps (JArr xs) = ''['' @ join '', '' (map json_dumps xs) @ '']''"
| "json_dumps (JObj kvs) =
     ''{'' @ join '', '' (map (\<lambda>(k, v). encode_str k @ '': '' @ json_dumps v) kvs) @ ''}''"

subsection \<open>\<^verbatim>\<open>json.loads\<close>\<close>

text \<open>
  The decoder of the standard library (\<^verbatim>\<open>json.decoder\<close>, \<^verbatim>\<open>json.scanner\<close>), in strict
  mode: \<open>scanstring\<close> is \<^verbatim>\<open>scanstring\<close>, \<open>scan_number\<close> is the match of \<^verbatim>\<open>NUMBER_RE\<close>,
  \<open>parse_value\<close> is \<^verbatim>\<open>scan_once\<close>, \<open>parse_array_items\<close> and \<open>parse_object_items\<close> are the
  loops of \<^verbatim>\<open>JSONArray\<close> and \<^verbatim>\<open>JSONObject\<close>. A syntax error raises \<^verbatim>\<open>JSONDecodeError\<close>.
  An escape \<^verbatim>\<open>\uXXXX\<close> of a code point from 256 on is \<open>Unmodelled\<close>.
\<close>

definition is_ws :: "char \<Rightarrow> bool" where
  "is_ws c \<longleftrightarrow> c = CHR '' '' \<or> c = CHR 0x09 \<or> c = CHR 0x0A \<or> c = CHR 0x0D"

definition skip_ws :: "string \<Rightarrow> string" where
  "skip_ws s = dropWhile is_ws s"

definition is_digit :: "char \<Rightarrow> bool" where
  "is_digit c \<longleftrightarrow> 48 \<le> (of_char c :: nat) \<and> (of_char c :: nat) \<le> 57"

definition digit_val :: "char \<Rightarrow> nat" where
  "digit_val c = of_char c - 48"

definition digits_val :: "string \<Rightarrow> nat" where
  "digits_val ds = foldl (\<lambda>a c. 10 * a + digit_val c) 0 ds"

definition hex_val :: "char \<Rightarrow> nat option" where
  "hex_val c =
     (let n = (of_char c :: nat) in
      if 48 \<le> n \<and> n \<le> 57 then Some (n - 48)
      else if 97 \<le> n \<and> n \<le> 102 then Some (n - 87)
      else if 65 \<le> n \<and> n \<le> 70 then Some (n - 55)
      else None)"

definition decode_uXXXX :: "string \<Rightarrow> char res" where
  "decode_uXXXX r =
     (case r of
        a # b # c # d # _ \<Rightarrow>
          (case (hex_val a, hex_val b, hex_val c, hex_val d) of
             (Some x3, Some x2, Some x1, Some x0) \<Rightarrow>
               (let n = ((x3 * 16 + x2) * 16 + x1) * 16 + x0
                in if n < 256 then Ok (char_of n) else Unmodelled)
           | _ \<Rightarrow> Raise JSONDecodeError)
      | _ \<Rightarrow> Raise JSONDecodeError)"

definition unescape :: "char \<Rightarrow> char option" where
  "unescape e =
     (if e = DQ then Some DQ
      else if e = BS then Some BS
      else if e = CHR ''/'' then Some (CHR ''/'')
      else if e = CHR ''b'' then Some (CHR 0x08)
      else if e = CHR ''f'' then Some (CHR 0x0C)
      else if e = CHR ''n'' then Some (CHR 0x0A)
      else if e = CHR ''r'' then Some (CHR 0x0D)
      else if e = CHR ''t'' then Some (CHR 0x09)
      else None)"

definition cons_str :: "char \<Rightarrow> (string \<times> string) res \<Rightarrow> (string \<times> string) res" where
  "cons_str c r = bind_res r (\<lambda>(s, rest). Ok (c # s, rest))"

fun scanstring :: "string \<Rightarrow> (string \<times> string) res" where
  "scanstring [] = Raise JSONDecodeError"
| "scanstring (c # cs) =
     (if c = DQ then Ok ([], cs)
      else if c = BS then
        (case cs of
           [] \<Rightarrow> Raise JSONDecodeError
         | e # r \<Rightarrow>
             if e = CHR ''u'' then
               (case decode_uXXXX r of
                  Ok ch \<Rightarrow> cons_str ch (scanstring (drop 4 r))
                | Raise x \<Rightarrow> Raise x
                | Unmodelled \<Rightarrow> Unmodelled)
             else
               (case unescape e of
                  None \<Rightarrow> Raise JSONDecodeError
                | Some ch \<Rightarrow> cons_str ch (scanstring r)))
      else if (of_char c :: nat) < 32 then Raise JSONDecodeError
      else cons_str c (scanstring cs))"

text \<open>
  \<^verbatim>\<open>NUMBER_RE = (-?(?:0|[1-9]\d*))(\.\d+)?([eE][-+]?\d+)?\<close>. \<open>scan_number\<close> returns the
  integer part, the fraction and the exponent that matched, and the rest of the text.
\<close>

definition scan_int_part :: "string \<Rightarrow> (string \<times> string) option" where
  "scan_int_part s =
     (let (sign, s1) = (case s of c # r \<Rightarrow> if c = CHR ''-'' then ([c], r) else ([], s) | [] \<Rightarrow> ([], s))
      in case s1 of
           [] \<Rightarrow> None
         | d # r \<Rightarrow>
             if d = CHR ''0'' then Some (sign @ [d], r)
             else if is_digit d then Some (sign @ d # takeWhile is_digit r, dropWhile is_digit r)
             else None)"

definition scan_frac :: "string \<Rightarrow> string \<times> string" where
  "scan_frac s =
     (case s of
        c # r \<Rightarrow>
          if c = CHR ''.'' \<and> takeWhile is_digit r \<noteq> []
          then (c # takeWhile is_digit r, dropWhile is_digit r)
          else ([], s)
      | [] \<Rightarrow> ([], s))"

definition scan_exp :: "string \<Rightarrow> string \<times> string" where
  "scan_exp s =
     (case s of
        c # r \<Rightarrow>
          if c = CHR ''e'' \<or> c = CHR ''E'' then
            (let (sg, r') = (case r of
                               x # r2 \<Rightarrow> if x = CHR ''+'' \<or> x = CHR ''-'' then ([x], r2) else ([], r)
                             | [] \<Rightarrow> ([], r))
             in if takeWhile is_digit r' \<noteq> []
                then (c # sg @ takeWhile is_digit r', dropWhile is_digit r')
                else ([], s))
          else ([], s)
      | [] \<Rightarrow> ([], s))"

definition int_of_literal :: "string \<Rightarrow> int" where
  "int_of_literal t =
     (case t of
        c # r \<Rightarrow> if c = CHR ''-'' then - int (digits_val r) else int (digits_val t)
      | [] \<Rightarrow> 0)"

definition scan_number :: "string \<Rightarrow> (json \<times> string) option" where
  "scan_number s =
     (case scan_int_part s of
        None \<Rightarrow> None
      | Some (integer, s1) \<Rightarrow>
          (let (frac, s2) = scan_frac s1; (exp, s3) = scan_exp s2
           in if frac \<noteq> [] \<or> exp \<noteq> []
              then Some (JFloat (integer @ frac @ exp), s3)
              else Some (JInt (int_of_literal integer), s3)))"

text \<open>\<^verbatim>\<open>dict(pairs)\<close>: a later pair with the same key replaces the value in place.\<close>

definition dict_of_pairs :: "(string \<times> json) list \<Rightarrow> (string \<times> json) list" where
  "dict_of_pairs ps = foldl (\<lambda>d (k, v). AList.update k v d) [] ps"

text \<open>
  The limits of the interpreter. An integer literal of more than 4300 digits is refused
  by the integer parser of Python 3.11 and later, and the decoder stops with
  \<^verbatim>\<open>RecursionError\<close> at some nesting depth near the recursion limit (1000 by default).
  Both are \<open>Unmodelled\<close> here, the second from a depth of 100 on.
\<close>

definition max_digits :: nat where
  "max_digits = 4300"

definition max_depth :: nat where
  "max_depth = 100"

definition checked_number :: "json \<times> string \<Rightarrow> (json \<times> string) res" where
  "checked_number nr =
     (case nr of
        (JInt i, rest) \<Rightarrow> if max_digits < length (show_int i) then Unmodelled else Ok (JInt i, rest)
      | (num, rest) \<Rightarrow> Ok (num, rest))"

text \<open>
  The first argument of the three parsing functions bounds the number of calls, the second
  the nesting depth that is left.
\<close>

fun parse_value :: "nat \<Rightarrow> nat \<Rightarrow> string \<Rightarrow> (json \<times> string) res"
  and parse_array_items :: "nat \<Rightarrow> nat \<Rightarrow> string \<Rightarrow> (json list \<times> string) res"
  and parse_object_items :: "nat \<Rightarrow> nat \<Rightarrow> string \<Rightarrow> ((string \<times> json) list \<times> string) res"
where
  "parse_value 0 d s = Unmodelled"
| "parse_value (Suc n) d s =
     (case s of
        [] \<Rightarrow> Raise JSONDecodeError
      | c # r \<Rightarrow>
          if c = DQ then bind_res (scanstring r) (\<lambda>(str, rest). Ok (JStr str, rest))
          else if c = CHR ''{'' then
            (case d of
               0 \<Rightarrow> Unmodelled
             | Suc d' \<Rightarrow>
                 (case skip_ws r of
                    [] \<Rightarrow> Raise JSONDecodeError
                  | c' # r' \<Rightarrow>
                      if c' = CHR ''}'' then Ok (JObj [], r')
                      else bind_res (parse_object_items n d' (c' # r'))
                             (\<lambda>(ps, rest). Ok (JObj (dict_of_pairs ps), rest))))
          else if c = CHR ''['' then
            (case d of
               0 \<Rightarrow> Unmodelled
             | Suc d' \<Rightarrow>
                 (case skip_ws r of
                    [] \<Rightarrow> Raise JSONDecodeError
                  | c' # r' \<Rightarrow>
                      if c' = CHR '']'' then Ok (JArr [], r')
                      else bind_res (parse_array_items n d' (c' # r'))
                             (\<lambda>(xs, rest). Ok (JArr xs, rest))))
          else if take 4 s = ''null'' then Ok (JNull, drop 4 s)
          else if take 4 s = ''true'' then Ok (JBool True, drop 4 s)
          else if take 5 s = ''false'' then Ok (JBool False, drop 5 s)
          else
            (case scan_number s of
               Some nr \<Rightarrow> checked_number nr
             | None \<Rightarrow>
                 if take 3 s = ''NaN'' then Ok (JFloat ''NaN'', drop 3 s)
                 else if take 8 s = ''Infinity'' then Ok (JFloat ''Infinity'', drop 8 s)
                 else if take 9 s = ''-Infinity'' then Ok (JFloat ''-Infinity'', drop 9 s)
                 else Raise JSONDecodeError))"
| "parse_array_items 0 d s = Unmodelled"
| "parse_array_items (Suc n) d s =
     bind_res (parse_value n d s)
       (\<lambda>(v, r).
          case skip_ws r of
            [] \<Rightarrow> Raise JSONDecodeError
          | c # r' \<Rightarrow>
              if c = CHR '']'' then Ok ([v], r')
              else if c = CHR '','' then
                bind_res (parse_array_items n d (skip_ws r')) (\<lambda>(vs, rest). Ok (v # vs, rest))
              else Raise JSONDecodeError)"
| "parse_object_items 0 d s = Unmodelled"
| "parse_object_items (Suc n) d s =
     (case s of
        [] \<Rightarrow> Raise JSONDecodeError
      | c # r \<Rightarrow>
          if c \<noteq> DQ then Raise JSONDecodeError
          else
            bind_res (scanstring r)
              (\<lambda>(k, r1).
                 case skip_ws r1 of
                   [] \<Rightarrow> Raise JSONDecodeError
                 | c1 # r2 \<Rightarrow>
                     if c1 \<noteq> CHR '':'' then Raise JSONDecodeError
                     else
                       bind_res (parse_value n d (skip_ws r2))
                         (\<lambda>(v, r3).
                            case skip_ws r3 of
                              [] \<Rightarrow> Raise JSONDecodeError
                            | c3 # r4 \<Rightarrow>
                                if c3 = CHR ''}'' then Ok ([(k, v)], r4)
                                else if c3 = CHR '','' then
                                  bind_res (parse_object_items n d (skip_ws r4))
                                    (\<lambda>(ps, rest). Ok ((k, v) # ps, rest))
                                else Raise JSONDecodeError)))"

text \<open>
  \<^verbatim>\<open>json.loads(s)\<close>: white space, one value, white space, and the end of the text. Each
  call of a parsing function that does not fail at once reads a character, so
  \<open>2 * length s + 1\<close> calls are never used up (lemma \<open>parse_fuel_enough\<close>).
\<close>

definition json_loads :: "string \<Rightarrow> json res" where
  "json_loads s =
     bind_res (parse_value (2 * length s + 1) max_depth (skip_ws s))
       (\<lambda>(v, rest). if skip_ws rest = [] then Ok v else Raise JSONDecodeError)"

section \<open>The feed fetcher\<close>

subsection \<open>Strings\<close>

text \<open>Python's \<^verbatim>\<open>sub in s\<close> and \<^verbatim>\<open>s.startswith(p)\<close>.\<close>

definition startswith :: "string \<Rightarrow> string \<Rightarrow> bool" where
  "startswith s p \<longleftrightarrow> take (length p) s = p"

fun str_in :: "string \<Rightarrow> string \<Rightarrow> bool" where
  "str_in sub [] = (sub = [])"
| "str_in sub (c # cs) = (startswith (c # cs) sub \<or> str_in sub cs)"

subsection \<open>What \<^verbatim>\<open>requests.get\<close> gives\<close>

text \<open>
  \<^verbatim>\<open>requests.get(url, headers=headers)\<close> raises (no connection, timeout, bad URL) or
  returns a response, of which the program reads the \<^verbatim>\<open>Content-Type\<close> header, if there
  is one, and the body. The network is a function from the URL to that outcome.
\<close>

datatype http_outcome =
    RequestFailed
  | Response (content_type: "string option") (body: string)

type_synonym network = "string \<Rightarrow> http_outcome"

text \<open>\<^verbatim>\<open>response.json()\<close> decodes the body with the same decoder as \<^verbatim>\<open>json.loads\<close>.\<close>

definition response_json :: "string \<Rightarrow> json res" where
  "response_json text = json_loads text"

subsection \<open>Data frames\<close>

text \<open>
  A \<^verbatim>\<open>pandas.DataFrame\<close>: its column labels and its rows, each row giving a cell for
  every column. \<open>pd_DataFrame\<close> is the constructor on a list of dicts: the columns are
  the keys in the order they first appear and a key a record lacks gives the cell
  \<^verbatim>\<open>nan\<close>. pandas may convert a column that holds numbers, booleans or \<^verbatim>\<open>None\<close>, and it
  accepts many other shapes of argument: both are \<open>Unmodelled\<close>. So every cell here is a
  \<^verbatim>\<open>str\<close>, a \<^verbatim>\<open>list\<close>, a \<^verbatim>\<open>dict\<close> or \<^verbatim>\<open>nan\<close>.
\<close>

record frame =
  columns :: "string list"
  rows :: "(string \<times> json) list list"

definition empty_frame :: frame where
  "empty_frame = \<lparr>columns = [], rows = []\<rparr>"

text \<open>\<^verbatim>\<open>df.empty\<close>: some axis has length 0.\<close>

definition empty :: "frame \<Rightarrow> bool" where
  "empty df \<longleftrightarrow> columns df = [] \<or> rows df = []"

fun add_new :: "string list \<Rightarrow> string list \<Rightarrow> string list" where
  "add_new cols [] = cols"
| "add_new cols (k # ks) = add_new (if k \<in> set cols then cols else cols @ [k]) ks"

definition cell_ok :: "json \<Rightarrow> bool" where
  "cell_ok v = (case v of JStr _ \<Rightarrow> True | JArr _ \<Rightarrow> True | JObj _ \<Rightarrow> True | _ \<Rightarrow> False)"

definition record_ok :: "json \<Rightarrow> bool" where
  "record_ok r = (case r of JObj kvs \<Rightarrow> list_all (\<lambda>(k, v). cell_ok v) kvs | _ \<Rightarrow> False)"

definition items :: "json \<Rightarrow> (string \<times> json) list" where
  "items r = (case r of JObj kvs \<Rightarrow> kvs | _ \<Rightarrow> [])"

definition fill_row :: "string list \<Rightarrow> (string \<times> json) list \<Rightarrow> (string \<times> json) list" where
  "fill_row cols kvs = map (\<lambda>c. (c, case map_of kvs c of Some v \<Rightarrow> v | None \<Rightarrow> NaN)) cols"

definition pd_DataFrame :: "json \<Rightarrow> frame res" where
  "pd_DataFrame stations =
     (case stations of
        JArr recs \<Rightarrow>
          if list_all record_ok recs then
            (let cols = foldl add_new [] (map (map fst \<circ> items) recs)
             in Ok \<lparr>columns = cols, rows = map (fill_row cols \<circ> items) recs\<rparr>)
          else Unmodelled
      | _ \<Rightarrow> Unmodelled)"

text \<open>
  \<^verbatim>\<open>df[col] = df[col].apply(json.dumps)\<close>: \<^verbatim>\<open>df[col]\<close> raises \<^verbatim>\<open>KeyError\<close> when there is
  no such column; otherwise every cell of the column is replaced by the \<^verbatim>\<open>str\<close> that
  \<^verbatim>\<open>json.dumps\<close> returns for it.
\<close>

definition apply_dumps :: "string \<Rightarrow> frame \<Rightarrow> frame res" where
  "apply_dumps col df =
     (if col \<in> set (columns df)
      then Ok (df\<lparr>rows := map (map (\<lambda>(c, v). if c = col then (c, JStr (json_dumps v)) else (c, v)))
                              (rows df)\<rparr>)
      else Raise KeyError)"

text \<open>
  \<^verbatim>\<open>df[col] = value\<close> with a scalar: every cell of the column becomes the value; a new
  column goes last.
\<close>

definition set_column :: "string \<Rightarrow> json \<Rightarrow> frame \<Rightarrow> frame" where
  "set_column col value df =
     (if col \<in> set (columns df)
      then df\<lparr>rows := map (map (\<lambda>(c, v). if c = col then (c, value) else (c, v))) (rows df)\<rparr>
      else \<lparr>columns = columns df @ [col], rows = map (\<lambda>r. r @ [(col, value)]) (rows df)\<rparr>)"

subsection \<open>\<^verbatim>\<open>fetch_and_process_data\<close>\<close>

text \<open>
  \<open>stations_of\<close> is \<^verbatim>\<open>data.get('stations', data)\<close>: only a \<^verbatim>\<open>dict\<close> has a method
  \<^verbatim>\<open>get\<close>; on a list, a string, a number, a boolean or \<^verbatim>\<open>None\<close> the attribute lookup
  raises \<^verbatim>\<open>AttributeError\<close>.
\<close>

definition stations_of :: "json \<Rightarrow> json res" where
  "stations_of data =
     (case data of
        JObj kvs \<Rightarrow> Ok (case map_of kvs ''stations'' of Some v \<Rightarrow> v | None \<Rightarrow> data)
      | _ \<Rightarrow> Raise AttributeError)"

text \<open>
  \<open>fetch_try\<close> is the body of the \<^verbatim>\<open>try\<close> block: \<open>Ok (Some df)\<close> is \<^verbatim>\<open>return df\<close>,
  \<open>Ok None\<close> is falling out of the \<^verbatim>\<open>else\<close> branch (unexpected content type).
  \<open>today\<close> is \<^verbatim>\<open>str(datetime.now().date())\<close> as read at line 70.
\<close>

definition fetch_try :: "network \<Rightarrow> string \<Rightarrow> string \<Rightarrow> frame option res" where
  "fetch_try net today url =
     (case net url of
        RequestFailed \<Rightarrow> Raise ConnectionError
      | Response ct text \<Rightarrow>
          (let h = (case ct of Some t \<Rightarrow> t | None \<Rightarrow> [])
           in if str_in ''application/json'' h \<or> str_in ''text/plain'' h then
                bind_res (if startswith h ''application/json''
                          then response_json text else json_loads text) (\<lambda>data.
                bind_res (stations_of data) (\<lambda>stations.
                bind_res (pd_DataFrame stations) (\<lambda>df.
                bind_res (apply_dumps ''location'' df) (\<lambda>df.
                bind_res (apply_dumps ''prices'' df) (\<lambda>df.
                Ok (Some (set_column ''date'' (JStr today) df)))))))
              else Ok None))"

text \<open>\<^verbatim>\<open>except Exception\<close> catches whatever the block raises; then an empty frame is returned.\<close>

definition fetch_and_process_data :: "network \<Rightarrow> string \<Rightarrow> string \<Rightarrow> frame res" where
  "fetch_and_process_data net today url =
     (case fetch_try net today url of
        Ok (Some df) \<Rightarrow> Ok df
      | Ok None \<Rightarrow> Ok empty_frame
      | Raise e \<Rightarrow> Ok empty_frame
      | Unmodelled \<Rightarrow> Unmodelled)"

section \<open>The snapshot store\<close>

text \<open>
  The two tables. Every column but the key is a nullable \<^verbatim>\<open>String\<close>; the keys are
  assigned from a counter. The store accepts any text.
\<close>

record row =
  row_id :: nat
  site_id :: "string option"
  brand :: "string option"
  address :: "string option"
  postcode :: "string option"
  location :: "string option"
  prices :: "string option"
  date :: "string option"

record metadata_row =
  metadata_id :: nat
  last_updated :: "string option"

record db =
  fuel_prices :: "row list"
  fuel_prices_next_id :: nat
  fuel_prices_metadata :: "metadata_row list"
  fuel_prices_metadata_next_id :: nat

text \<open>
  \<open>today\<close> is \<^verbatim>\<open>str(datetime.now().date())\<close> at the call. A \<^verbatim>\<open>NULL\<close> date is equal to
  nothing. The argument \<^verbatim>\<open>url\<close> is not used.
\<close>

definition check_existing_data :: "db \<Rightarrow> string \<Rightarrow> string \<Rightarrow> bool" where
  "check_existing_data conn today url =
     (let result = filter (\<lambda>r. date r = Some today) (fuel_prices conn)
      in length result > 0)"

text \<open>
  \<^verbatim>\<open>pd.concat(data_frames, ignore_index=True)\<close>: the union of the columns in the order
  they first appear, the rows of every frame in turn, \<^verbatim>\<open>nan\<close> where a frame lacks a
  column.
\<close>

definition pd_concat :: "frame list \<Rightarrow> frame" where
  "pd_concat dfs =
     (let cols = foldl add_new [] (map columns dfs)
      in \<lparr>columns = cols, rows = concat (map (\<lambda>df. map (fill_row cols) (rows df)) dfs)\<rparr>)"

text \<open>
  \<^verbatim>\<open>combined_df.to_sql('fuel_prices', engine, if_exists='append', index=False)\<close>: one
  \<^verbatim>\<open>INSERT\<close> of the frame's columns. A column the table does not have is an error of the
  database. A \<^verbatim>\<open>str\<close> cell is stored as it is and \<^verbatim>\<open>nan\<close> as \<^verbatim>\<open>NULL\<close>; what the driver
  does with a list or a dict, or with a column \<^verbatim>\<open>id\<close>, is \<open>Unmodelled\<close>.
\<close>

definition table_columns :: "string list" where
  "table_columns = [''id'', ''site_id'', ''brand'', ''address'', ''postcode'', ''location'',
                    ''prices'', ''date'']"

definition sql_text :: "json option \<Rightarrow> string option" where
  "sql_text c = (case c of Some (JStr s) \<Rightarrow> Some s | _ \<Rightarrow> None)"

definition storable :: "json \<Rightarrow> bool" where
  "storable v = (case v of JStr _ \<Rightarrow> True | JFloat f \<Rightarrow> f = ''NaN'' | _ \<Rightarrow> False)"

definition insert_row :: "nat \<Rightarrow> (string \<times> json) list \<Rightarrow> row" where
  "insert_row i r =
     \<lparr>row_id = i,
      site_id = sql_text (map_of r ''site_id''),
      brand = sql_text (map_of r ''brand''),
      address = sql_text (map_of r ''address''),
      postcode = sql_text (map_of r ''postcode''),
      location = sql_text (map_of r ''location''),
      prices = sql_text (map_of r ''prices''),
      date = sql_text (map_of r ''date'')\<rparr>"

definition to_sql :: "frame \<Rightarrow> db \<Rightarrow> db res" where
  "to_sql df conn =
     (if \<not> list_all (\<lambda>c. c \<in> set table_columns) (columns df) then Raise DatabaseError
      else if ''id'' \<in> set (columns df) \<or> \<not> list_all (list_all (\<lambda>(c, v). storable v)) (rows df)
      then Unmodelled
      else Ok (conn\<lparr>fuel_prices :=
                      fuel_prices conn @
                      map (\<lambda>(i, r). insert_row (fuel_prices_next_id conn + i) r)
                          (enumerate 0 (rows df)),
                    fuel_prices_next_id := fuel_prices_next_id conn + length (rows df)\<rparr>))"

section \<open>The aggregation run\<close>

text \<open>The configured feeds.\<close>

definition urls :: "string list" where
  "urls =
    [''https://applegreenstores.com/fuel-prices/data.json'',
     ''https://fuelprices.asconagroup.co.uk/newfuel.json'',
     ''https://storelocator.asda.com/fuel_prices_data.json'',
     ''https://fuelprices.esso.co.uk/latestdata.json'',
     ''https://jetlocal.co.uk/fuel_prices_data.json'',
     ''https://www.morrisons.com/fuel-prices/fuel.json'',
     ''https://moto-way.com/fuel-price/fuel_prices.json'',
     ''https://fuel.motorfuelgroup.com/fuel_prices_data.json'',
     ''https://www.rontec-servicestations.co.uk/fuel-prices/data/fuel_prices_data.json'',
     ''https://api.sainsburys.co.uk/v1/exports/latest/fuel_prices_data.json'',
     ''https://www.sgnretail.uk/files/data/SGN_daily_fuel_prices.json'',
     ''https://www.tesco.com/fuel_prices/fuel_prices_data.json'']"

text \<open>
  \<open>main_loop\<close> is the \<^verbatim>\<open>for\<close> loop of \<^verbatim>\<open>main\<close> over the URLs that remain, with
  \<^verbatim>\<open>data_frames\<close> as accumulator. Nothing is written before the loop ends, so the
  connection is the same in every iteration. The run is taken to stay within one
  calendar day: every \<^verbatim>\<open>datetime.now().date()\<close> of the run reads \<open>today\<close>.
\<close>

fun main_loop :: "network \<Rightarrow> string \<Rightarrow> db \<Rightarrow> string list \<Rightarrow> frame list \<Rightarrow> frame list res" where
  "main_loop net today conn [] data_frames = Ok data_frames"
| "main_loop net today conn (url # rest) data_frames =
     (if check_existing_data conn today url then main_loop net today conn rest data_frames
      else bind_res (fetch_and_process_data net today url) (\<lambda>df.
             main_loop net today conn rest
               (if \<not> empty df then data_frames @ [df] else data_frames)))"

text \<open>
  \<^verbatim>\<open>main()\<close>, with the list of URLs (the global \<^verbatim>\<open>urls\<close>) as an argument. \<open>now\<close> is
  \<^verbatim>\<open>str(datetime.now())\<close> at line 99. The metadata table is emptied and gets one row.
\<close>

definition main_on :: "string list \<Rightarrow> network \<Rightarrow> string \<Rightarrow> string \<Rightarrow> db \<Rightarrow> db res" where
  "main_on us net today now conn =
     bind_res (main_loop net today conn us []) (\<lambda>data_frames.
       if data_frames \<noteq> [] then
         bind_res (to_sql (pd_concat data_frames) conn) (\<lambda>conn'.
           Ok (conn'\<lparr>fuel_prices_metadata :=
                        [\<lparr>metadata_id = fuel_prices_metadata_next_id conn',
                          last_updated = Some now\<rparr>],
                      fuel_prices_metadata_next_id := fuel_prices_metadata_next_id conn' + 1\<rparr>))
       else Ok conn)"

definition main :: "network \<Rightarrow> string \<Rightarrow> string \<Rightarrow> db \<Rightarrow> db res" where
  "main = main_on urls"

section \<open>The query service\<close>

text \<open>
  The two query parameters of \<^verbatim>\<open>GET /api/prices\<close>; each may be absent.
  \<open>args_get\<close> is \<^verbatim>\<open>request.args.get(key, default)\<close>.
\<close>

record request =
  postcode_arg :: "string option"
  filters_arg :: "string option"

definition args_get :: "string option \<Rightarrow> string \<Rightarrow> string" where
  "args_get a d = (case a of Some v \<Rightarrow> v | None \<Rightarrow> d)"

fun map_res :: "('a \<Rightarrow> 'b res) \<Rightarrow> 'a list \<Rightarrow> 'b list res" where
  "map_res f [] = Ok []"
| "map_res f (x # xs) = bind_res (f x) (\<lambda>y. bind_res (map_res f xs) (\<lambda>ys. Ok (y # ys)))"

text \<open>\<^verbatim>\<open>json.loads\<close> on a cell read from the table: \<^verbatim>\<open>None\<close> is a \<^verbatim>\<open>TypeError\<close>.\<close>

definition loads_cell :: "string option \<Rightarrow> json res" where
  "loads_cell c = (case c of None \<Rightarrow> Raise TypeError | Some t \<Rightarrow> json_loads t)"

subsection \<open>\<^verbatim>\<open>Series.str.contains(pat, case=False)\<close>\<close>

text \<open>
  With its default \<^verbatim>\<open>regex=True\<close>, pandas compiles \<^verbatim>\<open>pat\<close> as a regular expression with
  \<^verbatim>\<open>re.IGNORECASE\<close> and keeps the cells in which \<^verbatim>\<open>re.search\<close> finds a match. The patterns
  covered here are sequences of ordinary characters and \<^verbatim>\<open>.\<close> (any character but a
  newline); a pattern with another special character is \<open>Unmodelled\<close>, and so is a
  \<^verbatim>\<open>NULL\<close> cell. \<open>py_lower\<close> is the lower case of a code point below 256.
\<close>

definition py_lower :: "char \<Rightarrow> char" where
  "py_lower c =
     (let n = (of_char c :: nat)
      in if (65 \<le> n \<and> n \<le> 90) \<or> (192 \<le> n \<and> n \<le> 222 \<and> n \<noteq> 215) then char_of (n + 32) else c)"

definition regex_special :: "char \<Rightarrow> bool" where
  "regex_special c \<longleftrightarrow>
     c \<in> set [CHR ''.'', CHR ''^'', CHR ''$'', CHR ''*'', CHR ''+'', CHR ''?'', CHR ''{'', CHR ''}'',
              CHR ''['', CHR '']'', BS, CHR ''|'', CHR ''('', CHR '')'']"

fun match_here :: "string \<Rightarrow> string \<Rightarrow> bool" where
  "match_here [] s = True"
| "match_here (p # ps) [] = False"
| "match_here (p # ps) (c # cs) =
     ((if p = CHR ''.'' then c \<noteq> CHR 0x0A else py_lower c = py_lower p) \<and> match_here ps cs)"

fun re_search :: "string \<Rightarrow> string \<Rightarrow> bool" where
  "re_search pat [] = match_here pat []"
| "re_search pat (c # cs) = (match_here pat (c # cs) \<or> re_search pat cs)"

type_synonym loaded_row = "row \<times> json \<times> json"

definition str_contains_filter :: "string \<Rightarrow> loaded_row list \<Rightarrow> loaded_row list res" where
  "str_contains_filter pat df =
     (if list_ex (\<lambda>c. regex_special c \<and> c \<noteq> CHR ''.'') pat then Unmodelled
      else if list_ex (\<lambda>(r, loc, prs). postcode r = None) df then Unmodelled
      else Ok (filter (\<lambda>(r, loc, prs). case postcode r of Some s \<Rightarrow> re_search pat s | None \<Rightarrow> False)
                 df))"

subsection \<open>\<^verbatim>\<open>get_prices\<close>\<close>

text \<open>
  \<open>dict_get d k dflt\<close> is \<^verbatim>\<open>d.get(k, dflt)\<close>, which only a \<^verbatim>\<open>dict\<close> has. \<open>truthy\<close>
  is the truth value Python gives an object in a condition; that of a float is
  \<open>Unmodelled\<close>.
\<close>

definition dict_get :: "json \<Rightarrow> string \<Rightarrow> json \<Rightarrow> json res" where
  "dict_get d k dflt =
     (case d of
        JObj kvs \<Rightarrow> Ok (case map_of kvs k of Some v \<Rightarrow> v | None \<Rightarrow> dflt)
      | _ \<Rightarrow> Raise AttributeError)"

definition truthy :: "json \<Rightarrow> bool res" where
  "truthy v =
     (case v of
        JNull \<Rightarrow> Ok False
      | JBool b \<Rightarrow> Ok b
      | JInt i \<Rightarrow> Ok (i \<noteq> 0)
      | JFloat f \<Rightarrow> Unmodelled
      | JStr s \<Rightarrow> Ok (s \<noteq> [])
      | JArr xs \<Rightarrow> Ok (xs \<noteq> [])
      | JObj kvs \<Rightarrow> Ok (kvs \<noteq> []))"

text \<open>
  \<^verbatim>\<open>prices.get(code) if filters.get(key, True) else None\<close>: the condition is evaluated
  first, and \<^verbatim>\<open>prices\<close> is looked at only when it holds. \<^verbatim>\<open>None\<close> is \<open>JNull\<close>.
\<close>

definition price_field :: "json \<Rightarrow> json \<Rightarrow> string \<Rightarrow> string \<Rightarrow> json res" where
  "price_field filters prs key code =
     bind_res (dict_get filters key (JBool True)) (\<lambda>flag.
     bind_res (truthy flag) (\<lambda>b.
       if b then dict_get prs code JNull else Ok JNull))"

definition cell :: "string option \<Rightarrow> json" where
  "cell c = (case c of Some s \<Rightarrow> JStr s | None \<Rightarrow> JNull)"

definition station_data :: "json \<Rightarrow> loaded_row \<Rightarrow> json res" where
  "station_data filters lr =
     (case lr of (r, loc, prs) \<Rightarrow>
        bind_res (price_field filters prs ''unleaded'' ''E10'') (\<lambda>u.
        bind_res (price_field filters prs ''superUnleaded'' ''E5'') (\<lambda>s.
        bind_res (price_field filters prs ''diesel'' ''B7'') (\<lambda>d.
          Ok (JObj [(''brand'', cell (brand r)),
                    (''address'', cell (address r)),
                    (''postcode'', cell (postcode r)),
                    (''unleaded'', u),
                    (''superUnleaded'', s),
                    (''diesel'', d)])))))"

text \<open>
  \<open>today\<close> is \<^verbatim>\<open>str(datetime.now().date())\<close> at line 110. \<open>read_sql\<close> is the query
  \<^verbatim>\<open>SELECT * FROM fuel_prices WHERE date = %s\<close>. The result is the list \<^verbatim>\<open>filtered_data\<close>
  that \<^verbatim>\<open>jsonify\<close> gets.
\<close>

definition read_sql :: "db \<Rightarrow> string \<Rightarrow> row list" where
  "read_sql conn today = filter (\<lambda>r. date r = Some today) (fuel_prices conn)"

definition get_prices :: "db \<Rightarrow> string \<Rightarrow> request \<Rightarrow> json res" where
  "get_prices conn today req =
     (let postcode = args_get (postcode_arg req) [];
          fuel_types = args_get (filters_arg req) ''{}''
      in bind_res (json_loads fuel_types) (\<lambda>filters.
         let df = read_sql conn today
         in bind_res (map_res (\<lambda>r. loads_cell (location r)) df) (\<lambda>locs.
            bind_res (map_res (\<lambda>r. loads_cell (prices r)) df) (\<lambda>prss.
            let df = zip df (zip locs prss)
            in bind_res (if postcode \<noteq> [] then str_contains_filter postcode df else Ok df) (\<lambda>df.
               bind_res (map_res (station_data filters) df) (\<lambda>filtered_data.
               Ok (JArr filtered_data)))))))"

text \<open>
  Flask answers with status 200 and the JSON body when the view function returns, and
  with 500 Internal Server Error when it raises an exception that is not an
  \<^verbatim>\<open>HTTPException\<close> and that no error handler is registered for; \<^verbatim>\<open>app.py\<close> registers
  none.
\<close>

record http_response =
  status :: nat
  payload :: "json option"

definition serve_get_prices :: "db \<Rightarrow> string \<Rightarrow> request \<Rightarrow> http_response res" where
  "serve_get_prices conn today req =
     (case get_prices conn today req of
        Ok data \<Rightarrow> Ok \<lparr>status = 200, payload = Some data\<rparr>
      | Raise e \<Rightarrow> Ok \<lparr>status = 500, payload = None\<rparr>
      | Unmodelled \<Rightarrow> Unmodelled)"

section \<open>Example data\<close>

text \<open>A feed as the retailers publish it, a network on which only one feed answers, and stores.\<close>

definition example_body :: string where
  "example_body = ''{\"last_updated\": \"01/01/2024 06:00:00\", \"stations\": [{\"site_id\": \"gcpv\", \"brand\": \"Tesco\", \"address\": \"1 High St\", \"postcode\": \"SW1A 1AA\", \"location\": {\"latitude\": 51.5, \"longitude\": -0.14}, \"prices\": {\"E10\": 1.45, \"E5\": 1.55, \"B7\": 1.5}}]}''"

definition example_net :: network where
  "example_net url =
     (if url = ''https://www.tesco.com/fuel_prices/fuel_prices_data.json''
      then Response (Some ''application/json'') example_body
      else RequestFailed)"

definition empty_db :: db where
  "empty_db = \<lparr>fuel_prices = [], fuel_prices_next_id = 1,
                fuel_prices_metadata = [], fuel_prices_metadata_next_id = 1\<rparr>"

definition example_row :: row where
  "example_row =
     \<lparr>row_id = 1, site_id = Some ''gcpv'', brand = Some ''Tesco'', address = Some ''1 High St'',
      postcode = Some ''SW1A 1AA'',
      location = Some ''{\"latitude\": 51.5, \"longitude\": -0.14}'',
      prices = Some ''{\"E10\": 1.45, \"E5\": 1.55, \"B7\": 1.5}'',
      date = Some ''2024-01-01''\<rparr>"

definition example_db :: db where
  "example_db =
     \<lparr>fuel_prices = [example_row], fuel_prices_next_id = 2,
      fuel_prices_metadata = [\<lparr>metadata_id = 1, last_updated = Some ''2024-01-01 06:00:05.123456''\<rparr>],
      fuel_prices_metadata_next_id = 2\<rparr>"

text \<open>A second row, of a station that sells E10 only, and the parsed prices of both rows.\<close>

definition example_row2 :: row where
  "example_row2 =
     \<lparr>row_id = 2, site_id = Some ''abcd'', brand = Some ''Esso'', address = Some ''2 Low Rd'',
      postcode = Some ''M1 1AE'',
      location = Some ''{\"latitude\": 53.4, \"longitude\": -2.2}'',
      prices = Some ''{\"E10\": 1.39}'',
      date = Some ''2024-01-01''\<rparr>"

definition example_db2 :: db where
  "example_db2 =
     \<lparr>fuel_prices = [example_row, example_row2], fuel_prices_next_id = 3,
      fuel_prices_metadata = [\<lparr>metadata_id = 1, last_updated = Some ''2024-01-01 06:00:05.123456''\<rparr>],
      fuel_prices_metadata_next_id = 2\<rparr>"

definition example_prices :: "row \<Rightarrow> (string \<times> json) list" where
  "example_prices r =
     (if row_id r = 1 then [(''E10'', JFloat ''1.45''), (''E5'', JFloat ''1.55''), (''B7'', JFloat ''1.5'')]
      else [(''E10'', JFloat ''1.39'')])"

text \<open>The record of the example feed, its location, and the frame the fetcher makes of the feed.\<close>

definition example_location :: json where
  "example_location = JObj [(''latitude'', JFloat ''51.5''), (''longitude'', JFloat ''-0.14'')]"

definition example_record :: "(string \<times> json) list" where
  "example_record =
     [(''site_id'', JStr ''gcpv''), (''brand'', JStr ''Tesco''), (''address'', JStr ''1 High St''),
      (''postcode'', JStr ''SW1A 1AA''), (''location'', example_location),
      (''prices'', JObj (example_prices example_row))]"

definition example_frame :: frame where
  "example_frame =
     \<lparr>columns = [''site_id'', ''brand'', ''address'', ''postcode'', ''location'', ''prices'', ''date''],
      rows = [[(''site_id'', JStr ''gcpv''), (''brand'', JStr ''Tesco''), (''address'', JStr ''1 High St''),
               (''postcode'', JStr ''SW1A 1AA''),
               (''location'', JStr ''{\"latitude\": 51.5, \"longitude\": -0.14}''),
               (''prices'', JStr ''{\"E10\": 1.45, \"E5\": 1.55, \"B7\": 1.5}''),
               (''date'', JStr ''2024-01-01'')]]\<rparr>"

section \<open>Predicates used in the statements\<close>

text \<open>
  A source whose fetch fails: the request raises, or the content type is neither of the
  two accepted ones, or the body is not JSON.
\<close>

definition fetch_fails :: "network \<Rightarrow> string \<Rightarrow> bool" where
  "fetch_fails net url =
     (case net url of
        RequestFailed \<Rightarrow> True
      | Response ct text \<Rightarrow>
          (let h = (case ct of Some t \<Rightarrow> t | None \<Rightarrow> [])
           in \<not> (str_in ''application/json'' h \<or> str_in ''text/plain'' h) \<or>
              json_loads text = Raise JSONDecodeError))"

text \<open>
  A network with one failure of each kind, one response without a content type, and the
  example feed.
\<close>

definition faulty_net :: network where
  "faulty_net url =
     (if url = ''https://applegreenstores.com/fuel-prices/data.json'' then RequestFailed
      else if url = ''https://fuelprices.asconagroup.co.uk/newfuel.json''
        then Response (Some ''text/html; charset=utf-8'') ''<html>Service unavailable</html>''
      else if url = ''https://storelocator.asda.com/fuel_prices_data.json''
        then Response (Some ''application/json'') ''<html>Service unavailable</html>''
      else if url = ''https://fuelprices.esso.co.uk/latestdata.json''
        then Response None example_body
      else example_net url)"

text \<open>The example feed as a bare array of station records.\<close>

definition bare_array_body :: string where
  "bare_array_body = ''[{\"site_id\": \"gcpv\", \"brand\": \"Tesco\", \"address\": \"1 High St\", \"postcode\": \"SW1A 1AA\", \"location\": {\"latitude\": 51.5, \"longitude\": -0.14}, \"prices\": {\"E10\": 1.45, \"E5\": 1.55, \"B7\": 1.5}}]''"

text \<open>
  The query service. \<open>has_flag fs key b\<close>: the filters object gives the flag \<open>key\<close> the
  boolean value \<open>b\<close>, an absent key counting as \<open>True\<close>. \<open>price_of ps code\<close> is the price
  stored under a grade code, \<open>JNull\<close> when there is none. \<open>expected_entry\<close> is the object
  the response should hold for a row whose prices are \<open>P r\<close>.
\<close>

definition has_flag :: "(string \<times> json) list \<Rightarrow> string \<Rightarrow> bool \<Rightarrow> bool" where
  "has_flag fs key b = (case map_of fs key of None \<Rightarrow> b | Some v \<Rightarrow> v = JBool b)"

definition price_of :: "(string \<times> json) list \<Rightarrow> string \<Rightarrow> json" where
  "price_of ps code = (case map_of ps code of Some v \<Rightarrow> v | None \<Rightarrow> JNull)"

definition expected_entry :: "bool \<Rightarrow> bool \<Rightarrow> bool \<Rightarrow> (row \<Rightarrow> (string \<times> json) list) \<Rightarrow> row \<Rightarrow> json" where
  "expected_entry u s d P r =
     JObj [(''brand'', cell (brand r)),
           (''address'', cell (address r)),
           (''postcode'', cell (postcode r)),
           (''unleaded'', if u then price_of (P r) ''E10'' else JNull),
           (''superUnleaded'', if s then price_of (P r) ''E5'' else JNull),
           (''diesel'', if d then price_of (P r) ''B7'' else JNull)]"

text \<open>
  \<open>ci_substring q s\<close>: \<open>s\<close> contains \<open>q\<close> when both are put in lower case.
  \<open>selected q r\<close>: the postcode parameter \<open>q\<close> is empty or a case-insensitive substring
  of the postcode of \<open>r\<close>. \<open>plain_pattern q\<close>: no character of \<open>q\<close> is special in a
  regular expression.
\<close>

definition plain_pattern :: "string \<Rightarrow> bool" where
  "plain_pattern q \<longleftrightarrow> list_all (\<lambda>c. \<not> regex_special c) q"

definition ci_substring :: "string \<Rightarrow> string \<Rightarrow> bool" where
  "ci_substring q s \<longleftrightarrow> str_in (map py_lower q) (map py_lower s)"

definition selected :: "string \<Rightarrow> row \<Rightarrow> bool" where
  "selected q r \<longleftrightarrow> q = [] \<or> (case postcode r of Some s \<Rightarrow> ci_substring q s | None \<Rightarrow> False)"

text \<open>
  \<open>readable conn today P\<close>: the \<^verbatim>\<open>location\<close> and \<^verbatim>\<open>prices\<close> texts of today's rows are
  JSON and the prices of a row \<open>r\<close> are the dict \<open>P r\<close>, as in every row the aggregation
  run writes. \<open>query_ok conn today q\<close>: the postcode parameter is a plain pattern and, when
  it is not empty, no row of today has a \<^verbatim>\<open>NULL\<close> postcode.
\<close>

definition readable :: "db \<Rightarrow> string \<Rightarrow> (row \<Rightarrow> (string \<times> json) list) \<Rightarrow> bool" where
  "readable conn today P \<longleftrightarrow>
     (\<forall>r\<in>set (read_sql conn today).
        (\<exists>l. loads_cell (location r) = Ok l) \<and> loads_cell (prices r) = Ok (JObj (P r)))"

definition query_ok :: "db \<Rightarrow> string \<Rightarrow> string \<Rightarrow> bool" where
  "query_ok conn today q \<longleftrightarrow>
     plain_pattern q \<and> (q \<noteq> [] \<longrightarrow> (\<forall>r\<in>set (read_sql conn today). postcode r \<noteq> None))"

text \<open>
  JSON values as \<^verbatim>\<open>json.loads\<close> makes them. \<open>float_literal r\<close>: \<open>r\<close> is one of the three
  constants or a number literal with a fraction or an exponent that the scanner reads
  as a whole. \<open>json_within d v\<close>: every float in \<open>v\<close> is such a literal, every integer has
  at most 4300 digits, no dict in \<open>v\<close> has a key twice, and lists and dicts are nested at
  most \<open>d\<close> deep. \<open>wf_json v\<close>: \<open>v\<close> is within the depth 100. \<open>value_start c\<close>: a JSON
  text can begin with \<open>c\<close>. \<open>ok_follow rest\<close>: \<open>rest\<close> is empty or begins with one of the
  characters that follow a value in the output of \<^verbatim>\<open>json.dumps\<close>.
\<close>

definition ok_follow :: "string \<Rightarrow> bool" where
  "ok_follow rest \<longleftrightarrow>
     (case rest of [] \<Rightarrow> True | c # _ \<Rightarrow> c = CHR '','' \<or> c = CHR '']'' \<or> c = CHR ''}'')"

definition float_literal :: "string \<Rightarrow> bool" where
  "float_literal r \<longleftrightarrow>
     r = ''NaN'' \<or> r = ''Infinity'' \<or> r = ''-Infinity'' \<or> scan_number r = Some (JFloat r, [])"

definition value_start :: "char \<Rightarrow> bool" where
  "value_start c \<longleftrightarrow>
     c = DQ \<or> c = CHR ''{'' \<or> c = CHR ''['' \<or> c = CHR ''n'' \<or> c = CHR ''t'' \<or> c = CHR ''f'' \<or>
     c = CHR ''-'' \<or> is_digit c \<or> c = CHR ''N'' \<or> c = CHR ''I''"

fun json_within :: "nat \<Rightarrow> json \<Rightarrow> bool" where
  "json_within d (JInt i) = (length (show_int i) \<le> max_digits)"
| "json_within d (JFloat r) = float_literal r"
| "json_within 0 (JArr xs) = False"
| "json_within (Suc d) (JArr xs) = list_all (json_within d) xs"
| "json_within 0 (JObj kvs) = False"
| "json_within (Suc d) (JObj kvs) = (distinct (map fst kvs) \<and> list_all (\<lambda>(k, v). json_within d v) kvs)"
| "json_within d _ = True"

definition wf_json :: "json \<Rightarrow> bool" where
  "wf_json v = json_within max_depth v"

section \<open>The check for today's data\<close>

lemma check_existing_data_iff:
  "check_existing_data conn today url \<longleftrightarrow> (\<exists>r\<in>set (fuel_prices conn). date r = Some today)"
  by (auto simp: check_existing_data_def filter_empty_conv)

lemma main_loop_all_skipped:
  "\<forall>url\<in>set us. check_existing_data conn today url \<Longrightarrow> main_loop net today conn us acc = Ok acc"
  by (induction us) auto

text \<open>
  C1. The check is by date alone: for every URL, \<open>check_existing_data\<close> holds exactly when
  the table has some row dated today, whichever source it came from. Once there is such a
  row, the loop skips every source it is given, whatever the network would have answered,
  and the run returns the store as it was.
\<close>

theorem check_existing_data_date_only:
  "(\<forall>url. check_existing_data conn today url \<longleftrightarrow> (\<exists>r\<in>set (fuel_prices conn). date r = Some today)) \<and>
   ((\<exists>r\<in>set (fuel_prices conn). date r = Some today) \<longrightarrow>
      (\<forall>net us acc. main_loop net today conn us acc = Ok acc) \<and>
      (\<forall>net now. main net today now conn = Ok conn))"
proof -
  have a: "\<And>url. check_existing_data conn today url \<longleftrightarrow> (\<exists>r\<in>set (fuel_prices conn). date r = Some today)"
    by (rule check_existing_data_iff)
  have b: "main_loop net today conn us acc = Ok acc"
    if "\<exists>r\<in>set (fuel_prices conn). date r = Some today" for net us acc
    using that by (intro main_loop_all_skipped) (simp add: a)
  have c: "main net today now conn = Ok conn"
    if "\<exists>r\<in>set (fuel_prices conn). date r = Some today" for net now
    using that by (simp add: main_def main_on_def b)
  from a b c show ?thesis by blast
qed

theorem check_existing_data_date_only_witness:
  "check_existing_data example_db ''2024-01-01'' ''https://www.tesco.com/fuel_prices/fuel_prices_data.json'' \<and>
   check_existing_data example_db ''2024-01-01'' ''https://applegreenstores.com/fuel-prices/data.json'' \<and>
   main_loop example_net ''2024-01-01'' example_db urls [] = Ok [] \<and>
   main example_net ''2024-01-01'' ''2024-01-01 07:00:00.000000'' example_db = Ok example_db"
proof -
  have h: "\<exists>r\<in>set (fuel_prices example_db). date r = Some ''2024-01-01''"
    by (simp add: example_db_def example_row_def)
  show ?thesis
    using check_existing_data_date_only [of example_db "''2024-01-01''"] h by blast
qed

section \<open>A run with an empty batch\<close>

lemma main_loop_no_network:
  "main_loop (\<lambda>u. RequestFailed) today empty_db us acc = Ok acc"
  by (induction us)
     (auto simp: check_existing_data_def empty_db_def fetch_and_process_data_def fetch_try_def
                 empty_def empty_frame_def)

text \<open>
  C8. When the loop over the configured URLs ends with an empty list of frames, \<open>main\<close>
  returns normally and the store (both tables and their key counters) is the one it
  started with.
\<close>

theorem empty_batch_changes_nothing:
  "main_loop net today conn urls [] = Ok [] \<Longrightarrow> main net today now conn = Ok conn"
  by (simp add: main_def main_on_def)

theorem empty_batch_changes_nothing_witness:
  "main_loop (\<lambda>u. RequestFailed) ''2024-01-01'' empty_db urls [] = Ok [] \<and>
   main (\<lambda>u. RequestFailed) ''2024-01-01'' ''2024-01-01 07:00:00.000000'' empty_db = Ok empty_db"
  using empty_batch_changes_nothing
          [of "\<lambda>u. RequestFailed" "''2024-01-01''" empty_db "''2024-01-01 07:00:00.000000''"]
        main_loop_no_network [of "''2024-01-01''" urls "[]"]
  by simp

section \<open>Failing sources\<close>

lemma fetch_never_raises: "fetch_and_process_data net today url \<noteq> Raise e"
  by (simp add: fetch_and_process_data_def split: res.splits option.splits)

lemma fetch_fails_empty:
  "fetch_fails net u \<Longrightarrow> fetch_and_process_data net today u = Ok empty_frame"
  by (auto simp: fetch_fails_def fetch_and_process_data_def fetch_try_def response_json_def Let_def
           split: http_outcome.splits)

lemma main_loop_append:
  "main_loop net today conn (us1 @ us2) acc =
   bind_res (main_loop net today conn us1 acc) (\<lambda>acc'. main_loop net today conn us2 acc')"
proof (induction us1 arbitrary: acc)
  case Nil
  show ?case by simp
next
  case (Cons u us1)
  show ?case
    by (cases "fetch_and_process_data net today u") (simp_all add: Cons.IH)
qed

lemma main_loop_failed_head:
  "fetch_fails net u \<Longrightarrow> main_loop net today conn (u # us) acc = main_loop net today conn us acc"
  by (simp add: fetch_fails_empty empty_def empty_frame_def)

text \<open>
  C5. A source whose fetch fails contributes an empty frame; \<open>fetch_and_process_data\<close>
  never raises; and the loop and the run over a list of sources that contains the
  failing one end exactly as they do over the list without it: the sources after it are
  processed and what succeeded is appended.
\<close>

theorem failed_fetch_is_isolated:
  assumes "fetch_fails net u"
  shows "fetch_and_process_data net today u = Ok empty_frame \<and>
         (\<forall>url e. fetch_and_process_data net today url \<noteq> Raise e) \<and>
         main_loop net today conn (us1 @ u # us2) acc = main_loop net today conn (us1 @ us2) acc \<and>
         main_on (us1 @ u # us2) net today now conn = main_on (us1 @ us2) net today now conn"
proof -
  have loop: "main_loop net today conn (us1 @ u # us2) acc = main_loop net today conn (us1 @ us2) acc"
    for acc
    by (simp only: main_loop_append [of _ _ _ us1] main_loop_failed_head [OF assms])
  show ?thesis
    using fetch_fails_empty [OF assms] fetch_never_raises loop
    by (simp add: main_on_def)
qed

lemma faulty_run:
  "main faulty_net ''2024-01-01'' ''2024-01-01 06:00:05.123456'' empty_db = Ok example_db"
  by code_simp

theorem failed_fetch_is_isolated_witness:
  "fetch_fails faulty_net ''https://storelocator.asda.com/fuel_prices_data.json'' \<and>
   fetch_and_process_data faulty_net ''2024-01-01'' ''https://storelocator.asda.com/fuel_prices_data.json''
     = Ok empty_frame \<and>
   main_on [''https://storelocator.asda.com/fuel_prices_data.json'',
            ''https://www.tesco.com/fuel_prices/fuel_prices_data.json''] faulty_net
        ''2024-01-01'' ''2024-01-01 06:00:05.123456'' empty_db =
   main_on [''https://www.tesco.com/fuel_prices/fuel_prices_data.json''] faulty_net
        ''2024-01-01'' ''2024-01-01 06:00:05.123456'' empty_db \<and>
   main faulty_net ''2024-01-01'' ''2024-01-01 06:00:05.123456'' empty_db = Ok example_db"
proof -
  have h: "fetch_fails faulty_net ''https://storelocator.asda.com/fuel_prices_data.json''"
    by code_simp
  show ?thesis
    using failed_fetch_is_isolated [OF h, of "''2024-01-01''" empty_db "[]"
        "[''https://www.tesco.com/fuel_prices/fuel_prices_data.json'']" "[]"
        "''2024-01-01 06:00:05.123456''"] h faulty_run
    by simp
qed

section \<open>The record sequence of a feed\<close>

lemma stations_of_dict:
  "stations_of (JObj kvs) = Ok (case map_of kvs ''stations'' of Some v \<Rightarrow> v | None \<Rightarrow> JObj kvs)"
  by (simp add: stations_of_def)

lemma stations_of_array: "stations_of (JArr xs) = Raise AttributeError"
  by (simp add: stations_of_def)

text \<open>
  C2. A feed that is a bare array of station records parses, but \<^verbatim>\<open>data.get\<close> raises
  \<^verbatim>\<open>AttributeError\<close> on the list, the handler catches it, and the fetcher returns an
  empty frame: the array is not used as the record sequence.
\<close>

theorem bare_array_feed_is_dropped:
  "json_loads bare_array_body =
     Ok (JArr [JObj [(''site_id'', JStr ''gcpv''), (''brand'', JStr ''Tesco''),
                     (''address'', JStr ''1 High St''), (''postcode'', JStr ''SW1A 1AA''),
                     (''location'', JObj [(''latitude'', JFloat ''51.5''), (''longitude'', JFloat ''-0.14'')]),
                     (''prices'', JObj [(''E10'', JFloat ''1.45''), (''E5'', JFloat ''1.55''),
                                        (''B7'', JFloat ''1.5'')])]]) \<and>
   bind_res (json_loads bare_array_body) stations_of = Raise AttributeError \<and>
   fetch_and_process_data (\<lambda>url. Response (Some ''application/json'') bare_array_body) ''2024-01-01''
     ''https://www.tesco.com/fuel_prices/fuel_prices_data.json'' = Ok empty_frame"
  by code_simp

section \<open>Malformed filters\<close>

text \<open>
  C3, as stated, fails: \<^verbatim>\<open>{unleaded: true}\<close> is not JSON, and the answer has status 500.
\<close>

theorem malformed_filters_counterexample:
  "json_loads ''{unleaded: true}'' = Raise JSONDecodeError \<and>
   serve_get_prices example_db ''2024-01-01''
      \<lparr>postcode_arg = None, filters_arg = Some ''{unleaded: true}''\<rparr>
     = Ok \<lparr>status = 500, payload = None\<rparr>"
  by code_simp

text \<open>
  C3, amended. When the \<^verbatim>\<open>filters\<close> parameter is not valid JSON, \<^verbatim>\<open>json.loads\<close> raises in
  the view function, nothing catches it, and the request is answered with status 500.
\<close>

theorem malformed_filters_server_error:
  "json_loads (args_get (filters_arg req) ''{}'') = Raise e \<Longrightarrow>
   serve_get_prices conn today req = Ok \<lparr>status = 500, payload = None\<rparr>"
  by (simp add: serve_get_prices_def get_prices_def Let_def)

theorem malformed_filters_server_error_witness:
  "json_loads (args_get (filters_arg \<lparr>postcode_arg = Some ''SW1A'', filters_arg = Some ''{\"diesel\": fals''\<rparr>) ''{}'')
     = Raise JSONDecodeError \<and>
   serve_get_prices example_db ''2024-01-01'' \<lparr>postcode_arg = Some ''SW1A'', filters_arg = Some ''{\"diesel\": fals''\<rparr>
     = Ok \<lparr>status = 500, payload = None\<rparr>"
proof -
  have h: "json_loads (args_get (filters_arg \<lparr>postcode_arg = Some ''SW1A'', filters_arg = Some ''{\"diesel\": fals''\<rparr>) ''{}'')
     = Raise JSONDecodeError"
    by code_simp
  from malformed_filters_server_error [OF h] h show ?thesis by simp
qed

section \<open>The query service\<close>

lemma map_res_Ok: "(\<And>x. x \<in> set xs \<Longrightarrow> f x = Ok (g x)) \<Longrightarrow> map_res f xs = Ok (map g xs)"
  by (induction xs) auto

lemma startswith_iff: "startswith s p \<longleftrightarrow> (\<exists>suf. s = p @ suf)"
  unfolding startswith_def
  by (metis append_eq_conv_conj append_take_drop_id)

lemma str_in_iff: "str_in sub s \<longleftrightarrow> (\<exists>pre suf. s = pre @ sub @ suf)"
proof (induction s)
  case Nil
  show ?case by auto
next
  case (Cons c cs)
  show ?case
  proof
    assume "str_in sub (c # cs)"
    then consider "startswith (c # cs) sub" | "str_in sub cs" by auto
    then show "\<exists>pre suf. c # cs = pre @ sub @ suf"
    proof cases
      case 1
      then obtain suf where "c # cs = sub @ suf" by (auto simp: startswith_iff)
      then have "c # cs = [] @ sub @ suf" by simp
      then show ?thesis by blast
    next
      case 2
      then obtain pre suf where "cs = pre @ sub @ suf" using Cons.IH by blast
      then have "c # cs = (c # pre) @ sub @ suf" by simp
      then show ?thesis by blast
    qed
  next
    assume "\<exists>pre suf. c # cs = pre @ sub @ suf"
    then obtain pre suf where eq: "c # cs = pre @ sub @ suf" by blast
    show "str_in sub (c # cs)"
    proof (cases pre)
      case Nil
      with eq have "startswith (c # cs) sub" by (auto simp: startswith_iff)
      then show ?thesis by simp
    next
      case (Cons p pre')
      with eq have "cs = pre' @ sub @ suf" by simp
      then have "str_in sub cs" using Cons.IH by blast
      then show ?thesis by simp
    qed
  qed
qed

lemma match_here_plain:
  "plain_pattern p \<Longrightarrow> match_here p s \<longleftrightarrow> startswith (map py_lower s) (map py_lower p)"
proof (induction p s rule: match_here.induct)
  case (1 s)
  show ?case by (simp add: startswith_def)
next
  case (2 p ps)
  show ?case by (simp add: startswith_def)
next
  case (3 p ps c cs)
  from "3.prems" have np: "p \<noteq> CHR ''.''" and pl: "plain_pattern ps"
    by (auto simp: plain_pattern_def regex_special_def)
  from 3 pl np show ?case by (auto simp: startswith_def)
qed

lemma re_search_plain:
  "plain_pattern p \<Longrightarrow> re_search p s \<longleftrightarrow> str_in (map py_lower p) (map py_lower s)"
proof (induction s)
  case Nil
  then show ?case by (cases p) (auto simp: match_here_plain startswith_def)
next
  case (Cons c cs)
  then show ?case by (simp add: match_here_plain)
qed

lemma ci_substring_iff:
  "ci_substring q s \<longleftrightarrow> (\<exists>pre suf. map py_lower s = pre @ map py_lower q @ suf)"
  by (simp add: ci_substring_def str_in_iff)

lemma re_search_plain_ci: "plain_pattern p \<Longrightarrow> re_search p s \<longleftrightarrow> ci_substring p s"
  by (simp add: re_search_plain ci_substring_def)

lemma price_field_flag:
  "has_flag fs key b \<Longrightarrow>
   price_field (JObj fs) (JObj ps) key code = Ok (if b then price_of ps code else JNull)"
  by (auto simp: has_flag_def price_field_def dict_get_def truthy_def price_of_def split: option.splits)

lemma station_data_expected:
  assumes "has_flag fs ''unleaded'' u" "has_flag fs ''superUnleaded'' s" "has_flag fs ''diesel'' d"
  shows "station_data (JObj fs) (r, l, JObj (P r)) = Ok (expected_entry u s d P r)"
  by (simp add: station_data_def price_field_flag [OF assms(1)] price_field_flag [OF assms(2)]
        price_field_flag [OF assms(3)] expected_entry_def)

lemma zip_maps: "zip xs (zip (map f xs) (map g xs)) = map (\<lambda>x. (x, f x, g x)) xs"
  by (induction xs) auto

lemma get_prices_characterisation:
  assumes F: "json_loads (args_get (filters_arg req) ''{}'') = Ok (JObj fs)"
    and flags: "has_flag fs ''unleaded'' u" "has_flag fs ''superUnleaded'' s" "has_flag fs ''diesel'' d"
    and R: "readable conn today P"
    and Q: "query_ok conn today (args_get (postcode_arg req) [])"
  shows "get_prices conn today req =
         Ok (JArr (map (expected_entry u s d P)
                     (filter (selected (args_get (postcode_arg req) [])) (read_sql conn today))))"
proof -
  define q where "q = args_get (postcode_arg req) []"
  define df where "df = read_sql conn today"
  from R have "\<forall>r\<in>set df. \<exists>l. loads_cell (location r) = Ok l"
    by (auto simp: readable_def df_def)
  then obtain L where L: "\<And>r. r \<in> set df \<Longrightarrow> loads_cell (location r) = Ok (L r)"
    by metis
  have locs: "map_res (\<lambda>r. loads_cell (location r)) df = Ok (map L df)"
    by (rule map_res_Ok) (rule L)
  have prss: "map_res (\<lambda>r. loads_cell (prices r)) df = Ok (map (\<lambda>r. JObj (P r)) df)"
    by (rule map_res_Ok) (use R in \<open>auto simp: readable_def df_def\<close>)
  have pl: "plain_pattern q"
    using Q by (simp add: query_ok_def q_def)
  let ?ld = "map (\<lambda>r. (r, L r, JObj (P r))) df"
  have flt: "(if q \<noteq> [] then str_contains_filter q ?ld else Ok ?ld)
             = Ok (map (\<lambda>r. (r, L r, JObj (P r))) (filter (selected q) df))"
  proof (cases "q = []")
    case True
    then show ?thesis by (simp add: selected_def)
  next
    case False
    have ok: "\<not> list_ex (\<lambda>c. regex_special c \<and> c \<noteq> CHR ''.'') q"
      using pl by (auto simp: plain_pattern_def list_ex_iff list_all_iff)
    have nn: "\<not> list_ex (\<lambda>(r, loc, prs). postcode r = None) ?ld"
      using Q False by (auto simp: list_ex_iff query_ok_def q_def df_def)
    have "filter (\<lambda>(r, loc, prs). case postcode r of Some s \<Rightarrow> re_search q s | None \<Rightarrow> False) ?ld
          = map (\<lambda>r. (r, L r, JObj (P r))) (filter (selected q) df)"
      using pl False
      by (auto simp: filter_map comp_def selected_def re_search_plain_ci
               intro!: arg_cong [where f = "map _"] filter_cong split: option.splits)
    with False ok nn show ?thesis by (simp add: str_contains_filter_def)
  qed
  have sd: "map_res (station_data (JObj fs)) (map (\<lambda>r. (r, L r, JObj (P r))) xs)
            = Ok (map (expected_entry u s d P) xs)" for xs
    by (induction xs) (simp_all add: station_data_expected [OF flags])
  have "get_prices conn today req =
        bind_res (if q \<noteq> [] then str_contains_filter q ?ld else Ok ?ld) (\<lambda>df.
          bind_res (map_res (station_data (JObj fs)) df) (\<lambda>filtered_data. Ok (JArr filtered_data)))"
    unfolding get_prices_def Let_def
    using F locs prss
    by (simp only: q_def [symmetric] df_def [symmetric] zip_maps bind_res.simps)
  also have "\<dots> = Ok (JArr (map (expected_entry u s d P) (filter (selected q) df)))"
    by (simp only: flt sd bind_res.simps)
  finally show ?thesis
    by (simp only: q_def df_def)
qed

lemma example_rows_load:
  "loads_cell (location example_row) = Ok (JObj [(''latitude'', JFloat ''51.5''), (''longitude'', JFloat ''-0.14'')])"
  "loads_cell (prices example_row) = Ok (JObj (example_prices example_row))"
  "loads_cell (location example_row2) = Ok (JObj [(''latitude'', JFloat ''53.4''), (''longitude'', JFloat ''-2.2'')])"
  "loads_cell (prices example_row2) = Ok (JObj (example_prices example_row2))"
  by code_simp+

lemma example_db2_readable: "readable example_db2 ''2024-01-01'' example_prices"
  using example_rows_load
  by (simp add: readable_def read_sql_def example_db2_def)

text \<open>
  C6. On a readable snapshot and with a postcode parameter in the covered range: when
  \<^verbatim>\<open>filters\<close> is a JSON object that gives the three flags the boolean values \<open>u\<close>, \<open>s\<close>
  and \<open>d\<close> (an absent key giving \<open>True\<close>), the response holds for every selected row the
  object \<open>expected_entry u s d P r\<close>: \<^verbatim>\<open>unleaded\<close> is the price under \<^verbatim>\<open>E10\<close> when \<open>u\<close> and
  null otherwise, \<^verbatim>\<open>superUnleaded\<close> the price under \<^verbatim>\<open>E5\<close> when \<open>s\<close>, \<^verbatim>\<open>diesel\<close> the
  price under \<^verbatim>\<open>B7\<close> when \<open>d\<close>. Without a \<^verbatim>\<open>filters\<close> parameter the three fields are the
  three stored prices.
\<close>

theorem price_fields_follow_filters:
  assumes R: "readable conn today P"
    and Q: "query_ok conn today (args_get (postcode_arg req) [])"
  shows "(json_loads (args_get (filters_arg req) ''{}'') = Ok (JObj fs) \<and>
          has_flag fs ''unleaded'' u \<and> has_flag fs ''superUnleaded'' s \<and> has_flag fs ''diesel'' d \<longrightarrow>
            get_prices conn today req =
              Ok (JArr (map (expected_entry u s d P)
                          (filter (selected (args_get (postcode_arg req) [])) (read_sql conn today))))) \<and>
         (filters_arg req = None \<longrightarrow>
            get_prices conn today req =
              Ok (JArr (map (expected_entry True True True P)
                          (filter (selected (args_get (postcode_arg req) [])) (read_sql conn today)))))"
proof (intro conjI impI)
  assume "json_loads (args_get (filters_arg req) ''{}'') = Ok (JObj fs) \<and>
          has_flag fs ''unleaded'' u \<and> has_flag fs ''superUnleaded'' s \<and> has_flag fs ''diesel'' d"
  then show "get_prices conn today req =
              Ok (JArr (map (expected_entry u s d P)
                          (filter (selected (args_get (postcode_arg req) [])) (read_sql conn today))))"
    using get_prices_characterisation [OF _ _ _ _ R Q] by blast
next
  assume none: "filters_arg req = None"
  have F: "json_loads (args_get (filters_arg req) ''{}'') = Ok (JObj [])"
    unfolding none by code_simp
  show "get_prices conn today req =
              Ok (JArr (map (expected_entry True True True P)
                          (filter (selected (args_get (postcode_arg req) [])) (read_sql conn today))))"
    by (rule get_prices_characterisation [OF F _ _ _ R Q]) (simp_all add: has_flag_def)
qed

lemma example_filters: "json_loads ''{\"diesel\": false}'' = Ok (JObj [(''diesel'', JBool False)])"
  by code_simp

lemma example_query_ok: "query_ok example_db2 ''2024-01-01'' ''sw1a''"
  by (simp add: query_ok_def plain_pattern_def regex_special_def read_sql_def example_db2_def
        example_row_def example_row2_def)

lemma example_selected:
  "filter (selected ''sw1a'') (read_sql example_db2 ''2024-01-01'') = [example_row]"
  by code_simp

theorem price_fields_follow_filters_witness:
  "get_prices example_db2 ''2024-01-01'' \<lparr>postcode_arg = Some ''sw1a'', filters_arg = Some ''{\"diesel\": false}''\<rparr>
     = Ok (JArr [JObj [(''brand'', JStr ''Tesco''), (''address'', JStr ''1 High St''),
                       (''postcode'', JStr ''SW1A 1AA''), (''unleaded'', JFloat ''1.45''),
                       (''superUnleaded'', JFloat ''1.55''), (''diesel'', JNull)]]) \<and>
   get_prices example_db2 ''2024-01-01'' \<lparr>postcode_arg = Some ''sw1a'', filters_arg = None\<rparr>
     = Ok (JArr [JObj [(''brand'', JStr ''Tesco''), (''address'', JStr ''1 High St''),
                       (''postcode'', JStr ''SW1A 1AA''), (''unleaded'', JFloat ''1.45''),
                       (''superUnleaded'', JFloat ''1.55''), (''diesel'', JFloat ''1.5'')]])"
proof -
  have e: "expected_entry u s d example_prices example_row =
        JObj [(''brand'', JStr ''Tesco''), (''address'', JStr ''1 High St''),
              (''postcode'', JStr ''SW1A 1AA''),
              (''unleaded'', if u then JFloat ''1.45'' else JNull),
              (''superUnleaded'', if s then JFloat ''1.55'' else JNull),
              (''diesel'', if d then JFloat ''1.5'' else JNull)]" for u s d
    by (simp add: expected_entry_def example_prices_def example_row_def cell_def price_of_def)
  have a: "get_prices example_db2 ''2024-01-01''
             \<lparr>postcode_arg = Some ''sw1a'', filters_arg = Some ''{\"diesel\": false}''\<rparr>
           = Ok (JArr (map (expected_entry True True False example_prices) [example_row]))"
    using price_fields_follow_filters
            [of example_db2 "''2024-01-01''" example_prices
                "\<lparr>postcode_arg = Some ''sw1a'', filters_arg = Some ''{\"diesel\": false}''\<rparr>"
                "[(''diesel'', JBool False)]" True True False]
          example_db2_readable example_query_ok example_filters example_selected
    by (simp add: args_get_def has_flag_def)
  have b: "get_prices example_db2 ''2024-01-01'' \<lparr>postcode_arg = Some ''sw1a'', filters_arg = None\<rparr>
           = Ok (JArr (map (expected_entry True True True example_prices) [example_row]))"
    using price_fields_follow_filters
            [of example_db2 "''2024-01-01''" example_prices
                "\<lparr>postcode_arg = Some ''sw1a'', filters_arg = None\<rparr>" "[]" True True True]
          example_db2_readable example_query_ok example_selected
    by (simp add: args_get_def)
  from a b show ?thesis by (simp add: e)
qed

text \<open>
  C10. Under the same conditions, every selected row of today's snapshot has its object in
  the response, with its brand, address and postcode; and a field whose grade code the
  row's prices lack is null there, whatever the flags are.
\<close>

theorem missing_grade_gives_null:
  assumes F: "json_loads (args_get (filters_arg req) ''{}'') = Ok (JObj fs)"
    and flags: "has_flag fs ''unleaded'' u" "has_flag fs ''superUnleaded'' s" "has_flag fs ''diesel'' d"
    and R: "readable conn today P"
    and Q: "query_ok conn today (args_get (postcode_arg req) [])"
    and r: "r \<in> set (read_sql conn today)" "selected (args_get (postcode_arg req) []) r"
  shows "\<exists>out e. get_prices conn today req = Ok (JArr out) \<and> JObj e \<in> set out \<and>
           map_of e ''brand'' = Some (cell (brand r)) \<and>
           map_of e ''address'' = Some (cell (address r)) \<and>
           map_of e ''postcode'' = Some (cell (postcode r)) \<and>
           (map_of (P r) ''E10'' = None \<longrightarrow> map_of e ''unleaded'' = Some JNull) \<and>
           (map_of (P r) ''E5'' = None \<longrightarrow> map_of e ''superUnleaded'' = Some JNull) \<and>
           (map_of (P r) ''B7'' = None \<longrightarrow> map_of e ''diesel'' = Some JNull)"
proof -
  let ?sel = "filter (selected (args_get (postcode_arg req) [])) (read_sql conn today)"
  let ?e = "[(''brand'', cell (brand r)), (''address'', cell (address r)),
             (''postcode'', cell (postcode r)),
             (''unleaded'', if u then price_of (P r) ''E10'' else JNull),
             (''superUnleaded'', if s then price_of (P r) ''E5'' else JNull),
             (''diesel'', if d then price_of (P r) ''B7'' else JNull)]"
  have out: "get_prices conn today req = Ok (JArr (map (expected_entry u s d P) ?sel))"
    by (rule get_prices_characterisation [OF F flags R Q])
  have mem: "JObj ?e \<in> set (map (expected_entry u s d P) ?sel)"
    using r by (auto simp: expected_entry_def image_iff)
  have fields: "map_of ?e ''brand'' = Some (cell (brand r))"
    "map_of ?e ''address'' = Some (cell (address r))"
    "map_of ?e ''postcode'' = Some (cell (postcode r))"
    "map_of (P r) ''E10'' = None \<longrightarrow> map_of ?e ''unleaded'' = Some JNull"
    "map_of (P r) ''E5'' = None \<longrightarrow> map_of ?e ''superUnleaded'' = Some JNull"
    "map_of (P r) ''B7'' = None \<longrightarrow> map_of ?e ''diesel'' = Some JNull"
    by (simp_all add: price_of_def)
  show ?thesis
    by (rule exI [of _ "map (expected_entry u s d P) ?sel"], rule exI [of _ ?e])
       (intro conjI out mem fields)
qed

lemma example_all_selected:
  "example_row2 \<in> set (read_sql example_db2 ''2024-01-01'')" "selected [] example_row2"
  "query_ok example_db2 ''2024-01-01'' []"
  by (simp_all add: read_sql_def example_db2_def example_row2_def selected_def query_ok_def
        plain_pattern_def)

theorem missing_grade_gives_null_witness:
  "\<exists>out e. get_prices example_db2 ''2024-01-01'' \<lparr>postcode_arg = None, filters_arg = None\<rparr> = Ok (JArr out) \<and>
      JObj e \<in> set out \<and> map_of e ''brand'' = Some (JStr ''Esso'') \<and>
      map_of e ''superUnleaded'' = Some JNull \<and> map_of e ''diesel'' = Some JNull"
proof -
  have F: "json_loads (args_get (filters_arg \<lparr>postcode_arg = None, filters_arg = None\<rparr>) ''{}'') = Ok (JObj [])"
    by code_simp
  have m: "map_of (example_prices example_row2) ''E5'' = None"
    "map_of (example_prices example_row2) ''B7'' = None"
    "cell (brand example_row2) = JStr ''Esso''"
    by (simp_all add: example_prices_def example_row2_def cell_def)
  show ?thesis
    using missing_grade_gives_null
            [OF F, of True True True example_db2 "''2024-01-01''" example_prices example_row2]
          example_db2_readable example_all_selected m
    by (simp add: has_flag_def args_get_def) blast
qed

text \<open>
  C9. When \<^verbatim>\<open>filters\<close> is valid JSON, the postcode parameter is in the covered range,
  the stored texts of today's rows are JSON, and no row of today is selected, the answer
  is status 200 with the empty array.
\<close>

theorem no_match_gives_empty_array:
  assumes F: "json_loads (args_get (filters_arg req) ''{}'') = Ok fv"
    and R: "\<forall>r\<in>set (read_sql conn today).
              (\<exists>l. loads_cell (location r) = Ok l) \<and> (\<exists>p. loads_cell (prices r) = Ok p)"
    and Q: "query_ok conn today (args_get (postcode_arg req) [])"
    and none: "\<forall>r\<in>set (read_sql conn today). \<not> selected (args_get (postcode_arg req) []) r"
  shows "serve_get_prices conn today req = Ok \<lparr>status = 200, payload = Some (JArr [])\<rparr>"
proof -
  define q where "q = args_get (postcode_arg req) []"
  define df where "df = read_sql conn today"
  from R obtain L where L: "\<And>r. r \<in> set df \<Longrightarrow> loads_cell (location r) = Ok (L r)"
    unfolding df_def by metis
  from R obtain P where P: "\<And>r. r \<in> set df \<Longrightarrow> loads_cell (prices r) = Ok (P r)"
    unfolding df_def by metis
  have locs: "map_res (\<lambda>r. loads_cell (location r)) df = Ok (map L df)"
    by (rule map_res_Ok) (rule L)
  have prss: "map_res (\<lambda>r. loads_cell (prices r)) df = Ok (map P df)"
    by (rule map_res_Ok) (rule P)
  let ?ld = "map (\<lambda>r. (r, L r, P r)) df"
  have flt: "(if q \<noteq> [] then str_contains_filter q ?ld else Ok ?ld) = Ok []"
  proof (cases "q = []")
    case True
    with none have "df = []"
      by (cases df) (auto simp: selected_def q_def df_def)
    with True show ?thesis by simp
  next
    case False
    have pl: "plain_pattern q" using Q by (simp add: query_ok_def q_def)
    have ok: "\<not> list_ex (\<lambda>c. regex_special c \<and> c \<noteq> CHR ''.'') q"
      using pl by (auto simp: plain_pattern_def list_ex_iff list_all_iff)
    have nn: "\<not> list_ex (\<lambda>(r, loc, prs). postcode r = None) ?ld"
      using Q False by (auto simp: list_ex_iff query_ok_def q_def df_def)
    have "filter (\<lambda>(r, loc, prs). case postcode r of Some s \<Rightarrow> re_search q s | None \<Rightarrow> False) ?ld = []"
      using none pl False
      by (auto simp: filter_empty_conv selected_def re_search_plain_ci q_def df_def split: option.splits)
    with False ok nn show ?thesis by (simp add: str_contains_filter_def)
  qed
  have "get_prices conn today req =
        bind_res (if q \<noteq> [] then str_contains_filter q ?ld else Ok ?ld) (\<lambda>df.
          bind_res (map_res (station_data fv) df) (\<lambda>filtered_data. Ok (JArr filtered_data)))"
    unfolding get_prices_def Let_def
    using F locs prss
    by (simp only: q_def [symmetric] df_def [symmetric] zip_maps bind_res.simps)
  also have "\<dots> = Ok (JArr [])"
    by (simp only: flt bind_res.simps map_res.simps)
  finally show ?thesis
    by (simp add: serve_get_prices_def)
qed

theorem no_match_gives_empty_array_witness:
  "serve_get_prices example_db2 ''2024-01-01'' \<lparr>postcode_arg = Some ''EH1'', filters_arg = Some ''{\"diesel\": false}''\<rparr>
     = Ok \<lparr>status = 200, payload = Some (JArr [])\<rparr> \<and>
   serve_get_prices example_db2 ''2024-06-30'' \<lparr>postcode_arg = None, filters_arg = None\<rparr>
     = Ok \<lparr>status = 200, payload = Some (JArr [])\<rparr>"
proof -
  have F: "json_loads (args_get (filters_arg \<lparr>postcode_arg = Some ''EH1'', filters_arg = Some ''{\"diesel\": false}''\<rparr>) ''{}'')
           = Ok (JObj [(''diesel'', JBool False)])"
    "json_loads (args_get (filters_arg \<lparr>postcode_arg = None, filters_arg = None\<rparr>) ''{}'') = Ok (JObj [])"
    by code_simp+
  have R: "\<forall>r\<in>set (read_sql example_db2 ''2024-01-01'').
              (\<exists>l. loads_cell (location r) = Ok l) \<and> (\<exists>p. loads_cell (prices r) = Ok p)"
    using example_rows_load by (simp add: read_sql_def example_db2_def)
  have R': "\<forall>r\<in>set (read_sql example_db2 ''2024-06-30'').
              (\<exists>l. loads_cell (location r) = Ok l) \<and> (\<exists>p. loads_cell (prices r) = Ok p)"
    by (simp add: read_sql_def example_db2_def example_row_def example_row2_def)
  have Q: "query_ok example_db2 ''2024-01-01'' ''EH1''" "query_ok example_db2 ''2024-06-30'' []"
    by (simp_all add: query_ok_def plain_pattern_def regex_special_def read_sql_def example_db2_def
          example_row_def example_row2_def)
  have "filter (selected ''EH1'') (read_sql example_db2 ''2024-01-01'') = []"
    "filter (selected []) (read_sql example_db2 ''2024-06-30'') = []"
    by code_simp+
  then have n: "\<forall>r\<in>set (read_sql example_db2 ''2024-01-01''). \<not> selected ''EH1'' r"
    "\<forall>r\<in>set (read_sql example_db2 ''2024-06-30''). \<not> selected [] r"
    by (simp_all only: filter_empty_conv)
  show ?thesis
    using no_match_gives_empty_array [OF F(1), of example_db2 "''2024-01-01''"]
          no_match_gives_empty_array [OF F(2), of example_db2 "''2024-06-30''"] R R' Q n
    by (simp add: args_get_def)
qed

text \<open>
  C7. The postcode parameter is compiled as a regular expression: with \<^verbatim>\<open>postcode=.\<close> the
  row with postcode \<^verbatim>\<open>SW1A 1AA\<close>, which does not contain a full stop, is retained.
\<close>

theorem postcode_is_a_regular_expression:
  "\<not> ci_substring ''.'' ''SW1A 1AA'' \<and>
   serve_get_prices example_db ''2024-01-01'' \<lparr>postcode_arg = Some ''.'', filters_arg = None\<rparr>
     = Ok \<lparr>status = 200,
           payload = Some (JArr [JObj [(''brand'', JStr ''Tesco''), (''address'', JStr ''1 High St''),
                       (''postcode'', JStr ''SW1A 1AA''), (''unleaded'', JFloat ''1.45''),
                       (''superUnleaded'', JFloat ''1.55''), (''diesel'', JFloat ''1.5'')]])\<rparr>"
  by code_simp

section \<open>The JSON round trip\<close>

lemma of_char_digit_char: "d < 10 \<Longrightarrow> (of_char (digit_char d) :: nat) = 48 + d"
  by (simp add: digit_char_def)

lemma is_digit_digit_char: "d < 10 \<Longrightarrow> is_digit (digit_char d)"
  by (simp add: is_digit_def of_char_digit_char)

lemma digit_val_digit_char: "d < 10 \<Longrightarrow> digit_val (digit_char d) = d"
  by (simp add: digit_val_def of_char_digit_char)

lemma digit_char_zero: "d < 10 \<Longrightarrow> digit_char d = CHR ''0'' \<longleftrightarrow> d = 0"
proof -
  assume d: "d < 10"
  have "digit_char d = CHR ''0'' \<longleftrightarrow> (of_char (digit_char d) :: nat) = of_char (CHR ''0'')"
    by (simp only: of_char_eq_iff)
  also have "\<dots> \<longleftrightarrow> d = 0" using d by (simp add: of_char_digit_char)
  finally show ?thesis .
qed

lemma show_nat_digits: "list_all is_digit (show_nat n)"
proof (induction n rule: show_nat.induct)
  case (1 n)
  show ?case
  proof (cases "n < 10")
    case True
    then show ?thesis by (subst show_nat.simps) (simp add: is_digit_digit_char)
  next
    case False
    with 1 show ?thesis by (subst show_nat.simps) (simp add: is_digit_digit_char)
  qed
qed

lemma show_nat_nonempty: "show_nat n \<noteq> []"
  by (subst show_nat.simps) simp

lemma digits_val_snoc: "digits_val (ds @ [c]) = 10 * digits_val ds + digit_val c"
  by (simp add: digits_val_def)

lemma digits_val_show_nat: "digits_val (show_nat n) = n"
proof (induction n rule: show_nat.induct)
  case (1 n)
  show ?case
  proof (cases "n < 10")
    case True
    then show ?thesis by (subst show_nat.simps) (simp add: digits_val_def digit_val_digit_char)
  next
    case False
    with 1 have "digits_val (show_nat (n div 10)) = n div 10" by simp
    with False show ?thesis
      by (subst show_nat.simps) (simp add: digits_val_snoc digit_val_digit_char)
  qed
qed

lemma show_nat_hd: "hd (show_nat n) = CHR ''0'' \<longleftrightarrow> n = 0"
proof (induction n rule: show_nat.induct)
  case (1 n)
  show ?case
  proof (cases "n < 10")
    case True
    then show ?thesis by (subst show_nat.simps) (simp add: digit_char_zero)
  next
    case False
    with 1 have "hd (show_nat (n div 10)) = CHR ''0'' \<longleftrightarrow> n div 10 = 0" by simp
    with False show ?thesis
      by (subst show_nat.simps) (simp add: show_nat_nonempty)
  qed
qed

lemma show_nat_0: "show_nat 0 = ''0''"
  by (subst show_nat.simps) (simp add: digit_char_zero)

lemma hex_val_hex_char: "d < 16 \<Longrightarrow> hex_val (hex_char d) = Some d"
  by (auto simp: hex_val_def hex_char_def Let_def)

lemma hex_val_zero: "hex_val (CHR ''0'') = Some 0"
  by (simp add: hex_val_def)

lemma decode_escape:
  "decode_uXXXX (CHR ''0'' # CHR ''0'' # hex_char (of_char c div 16) # hex_char (of_char c mod 16) # r)
   = Ok c"
proof -
  have lt: "(of_char c :: nat) < 256" by simp
  then have d: "(of_char c :: nat) div 16 < 16" by arith
  have m: "(of_char c :: nat) mod 16 < 16" by simp
  have "(of_char c :: nat) div 16 * 16 + of_char c mod 16 = of_char c" by simp
  with lt show ?thesis
    by (simp add: decode_uXXXX_def hex_val_zero hex_val_hex_char [OF d] hex_val_hex_char [OF m])
qed

lemma cons_str_Ok: "cons_str c (Ok (s, r)) = Ok (c # s, r)"
  by (simp add: cons_str_def)

lemma scanstring_escape_char:
  "scanstring t = Ok (s, r) \<Longrightarrow> scanstring (escape_char c @ t) = Ok (c # s, r)"
proof -
  assume t: "scanstring t = Ok (s, r)"
  consider "c = DQ" | "c = BS" | "c = CHR 0x0A" | "c = CHR 0x0D" | "c = CHR 0x09" | "c = CHR 0x08"
    | "c = CHR 0x0C"
    | "c \<noteq> DQ" "c \<noteq> BS" "32 \<le> (of_char c :: nat)" "(of_char c :: nat) \<le> 126"
    | "c \<noteq> DQ" "c \<noteq> BS" "c \<noteq> CHR 0x0A" "c \<noteq> CHR 0x0D" "c \<noteq> CHR 0x09" "c \<noteq> CHR 0x08"
      "c \<noteq> CHR 0x0C" "\<not> (32 \<le> (of_char c :: nat) \<and> (of_char c :: nat) \<le> 126)"
    by blast
  then show ?thesis
  proof cases
    case 8
    then have "escape_char c = [c]"
      by (auto simp: escape_char_def)
    with 8 t show ?thesis by (simp add: cons_str_Ok)
  next
    case 9
    then have "escape_char c = [BS, CHR ''u'', CHR ''0'', CHR ''0'',
            hex_char (of_char c div 16), hex_char (of_char c mod 16)]"
      by (simp add: escape_char_def)
    with t show ?thesis by (simp add: decode_escape cons_str_Ok)
  qed (simp_all add: escape_char_def unescape_def t cons_str_Ok)
qed

lemma scanstring_encode:
  "scanstring (concat (map escape_char s) @ DQ # rest) = Ok (s, rest)"
  by (induction s) (simp_all add: scanstring_escape_char)

lemma while_append_stop:
  "rest = [] \<or> \<not> is_digit (hd rest) \<Longrightarrow>
   takeWhile is_digit (r @ rest) = takeWhile is_digit r \<and>
   dropWhile is_digit (r @ rest) = dropWhile is_digit r @ rest"
  by (induction r) (auto simp: takeWhile_eq_Nil_iff dropWhile_eq_self_iff)

lemma ok_follow_stop:
  assumes "ok_follow rest"
  shows "rest = [] \<or> \<not> is_digit (hd rest)"
    and "\<And>c r. rest \<noteq> c # r \<or> (c \<noteq> CHR ''.'' \<and> c \<noteq> CHR ''e'' \<and> c \<noteq> CHR ''E'')"
  using assms by (auto simp: ok_follow_def is_digit_def split: list.splits)

lemma scan_int_part_append:
  assumes "ok_follow rest" "scan_int_part s = Some (ip, s1)"
  shows "scan_int_part (s @ rest) = Some (ip, s1 @ rest)"
proof -
  note w = while_append_stop [OF ok_follow_stop(1) [OF assms(1)]]
  from assms(2) obtain c r where s: "s = c # r"
    by (cases s) (auto simp: scan_int_part_def)
  show ?thesis
  proof (cases "c = CHR ''-''")
    case True
    with assms(2) s obtain d r' where r: "r = d # r'"
      by (cases r) (auto simp: scan_int_part_def)
    with assms(2) s True show ?thesis
      by (auto simp: scan_int_part_def w split: if_splits)
  next
    case False
    with assms(2) s show ?thesis
      by (auto simp: scan_int_part_def w split: if_splits)
  qed
qed

lemma scan_frac_append:
  assumes "ok_follow rest"
  shows "scan_frac (s @ rest) = (fst (scan_frac s), snd (scan_frac s) @ rest)"
proof -
  note w = while_append_stop [OF ok_follow_stop(1) [OF assms(1)]]
  show ?thesis
  proof (cases s)
    case Nil
    with ok_follow_stop(2) [OF assms] show ?thesis
      by (cases rest) (auto simp: scan_frac_def)
  next
    case (Cons c r)
    then show ?thesis by (simp add: scan_frac_def w)
  qed
qed

lemma scan_exp_append:
  assumes "ok_follow rest"
  shows "scan_exp (s @ rest) = (fst (scan_exp s), snd (scan_exp s) @ rest)"
proof -
  note w = while_append_stop [OF ok_follow_stop(1) [OF assms(1)]]
  have nd: "takeWhile is_digit rest = []"
    using ok_follow_stop(1) [OF assms] by (cases rest) auto
  have npm: "\<And>x r2. rest = x # r2 \<Longrightarrow> x \<noteq> CHR ''+'' \<and> x \<noteq> CHR ''-''"
    using assms by (auto simp: ok_follow_def)
  show ?thesis
  proof (cases s)
    case Nil
    with ok_follow_stop(2) [OF assms] show ?thesis
      by (cases rest) (auto simp: scan_exp_def)
  next
    case (Cons c r)
    show ?thesis
    proof (cases r)
      case Nil
      with Cons nd npm show ?thesis
        by (cases rest) (auto simp: scan_exp_def)
    next
      case (Cons x r2)
      with \<open>s = c # r\<close> show ?thesis
        by (simp add: scan_exp_def w)
    qed
  qed
qed

lemma scan_number_append:
  assumes "ok_follow rest" "scan_number s = Some (num, s3)"
  shows "scan_number (s @ rest) = Some (num, s3 @ rest)"
proof -
  from assms(2) obtain ip s1 where ip: "scan_int_part s = Some (ip, s1)"
    by (auto simp: scan_number_def split: option.splits)
  obtain frac s2 where fr: "scan_frac s1 = (frac, s2)" by (cases "scan_frac s1")
  obtain ex s3' where ex: "scan_exp s2 = (ex, s3')" by (cases "scan_exp s2")
  from assms(2) ip fr ex show ?thesis
    by (auto simp: scan_number_def scan_int_part_append [OF assms(1) ip]
          scan_frac_append [OF assms(1)] scan_exp_append [OF assms(1)] split: if_splits)
qed

lemma takeWhile_all: "list_all P xs \<Longrightarrow> takeWhile P xs = xs \<and> dropWhile P xs = []"
  by (induction xs) auto

lemma scan_int_part_show_nat:
  "scan_int_part (show_nat n) = Some (show_nat n, [])"
proof (cases "show_nat n")
  case Nil
  with show_nat_nonempty show ?thesis by simp
next
  case (Cons d r)
  have dig: "is_digit d" "list_all is_digit r"
    using show_nat_digits [of n] Cons by simp_all
  have nm: "d \<noteq> CHR ''-''"
    using dig(1) by (auto simp: is_digit_def)
  show ?thesis
  proof (cases "d = CHR ''0''")
    case True
    with show_nat_hd [of n] Cons have "n = 0" by simp
    then show ?thesis by (simp add: show_nat_0 scan_int_part_def)
  next
    case False
    with Cons nm dig takeWhile_all [OF dig(2)] show ?thesis
      by (simp add: scan_int_part_def)
  qed
qed

lemma scan_int_part_minus:
  "scan_int_part s = Some (ip, r) \<Longrightarrow> s \<noteq> [] \<Longrightarrow> hd s \<noteq> CHR ''-'' \<Longrightarrow>
   scan_int_part (CHR ''-'' # s) = Some (CHR ''-'' # ip, r)"
  by (cases s) (auto simp: scan_int_part_def split: if_splits)

lemma show_nat_hd_digit: "is_digit (hd (show_nat n))"
  using show_nat_digits [of n] show_nat_nonempty [of n] by (cases "show_nat n") simp_all

lemma scan_int_part_show_int: "scan_int_part (show_int i) = Some (show_int i, [])"
proof (cases "i < 0")
  case True
  have "hd (show_nat (nat (- i))) \<noteq> CHR ''-''"
    using show_nat_hd_digit [of "nat (- i)"] by (auto simp: is_digit_def)
  with True show ?thesis
    by (simp add: show_int_def scan_int_part_minus [OF scan_int_part_show_nat show_nat_nonempty])
next
  case False
  then show ?thesis by (simp add: show_int_def scan_int_part_show_nat)
qed

lemma int_of_literal_show_int: "int_of_literal (show_int i) = i"
proof (cases "i < 0")
  case True
  then show ?thesis by (simp add: show_int_def int_of_literal_def digits_val_show_nat)
next
  case False
  have "hd (show_nat (nat i)) \<noteq> CHR ''-''"
    using show_nat_hd_digit [of "nat i"] by (auto simp: is_digit_def)
  obtain a r where ar: "show_nat (nat i) = a # r"
    using show_nat_nonempty [of "nat i"] by (cases "show_nat (nat i)") auto
  with \<open>hd (show_nat (nat i)) \<noteq> CHR ''-''\<close> have "a \<noteq> CHR ''-''" by simp
  then have "int_of_literal (a # r) = int (digits_val (a # r))"
    by (simp add: int_of_literal_def)
  also have "\<dots> = int (nat i)"
    by (simp only: ar [symmetric] digits_val_show_nat)
  finally show ?thesis using False by (simp add: show_int_def ar)
qed

lemma scan_number_show_int: "scan_number (show_int i) = Some (JInt i, [])"
  by (simp add: scan_number_def scan_int_part_show_int scan_frac_def scan_exp_def
        int_of_literal_show_int)

lemma value_start_not:
  "value_start c \<Longrightarrow> \<not> is_ws c \<and> c \<noteq> CHR '']'' \<and> c \<noteq> CHR ''}'' \<and> c \<noteq> CHR '','' \<and> c \<noteq> CHR '':''"
  by (auto simp: value_start_def is_ws_def is_digit_def)

lemma skip_ws_start: "\<not> is_ws c \<Longrightarrow> skip_ws (c # r) = c # r"
  by (simp add: skip_ws_def)

lemma skip_ws_Nil: "skip_ws [] = []"
  by (simp add: skip_ws_def)

lemma skip_ws_space: "skip_ws (CHR '' '' # r) = skip_ws r"
  by (simp add: skip_ws_def is_ws_def)

lemma scan_int_part_start:
  "scan_int_part s = Some (ip, r) \<Longrightarrow> \<exists>c t. s = c # t \<and> (c = CHR ''-'' \<or> is_digit c)"
  by (cases s) (auto simp: scan_int_part_def is_digit_def split: if_splits list.splits)

lemma scan_number_start:
  "scan_number s = Some (num, r) \<Longrightarrow> \<exists>c t. s = c # t \<and> (c = CHR ''-'' \<or> is_digit c)"
  by (auto simp: scan_number_def split: option.splits dest: scan_int_part_start)

lemma dumps_start: "json_within d v \<Longrightarrow> \<exists>c r. json_dumps v = c # r \<and> value_start c"
proof (cases v)
  case (JInt i)
  from scan_number_start [OF scan_number_show_int [of i]] JInt show ?thesis
    by (auto simp: value_start_def)
next
  case (JFloat r)
  assume "json_within d v"
  with JFloat have "float_literal r" by simp
  then consider "r = ''NaN''" | "r = ''Infinity''" | "r = ''-Infinity''"
    | "scan_number r = Some (JFloat r, [])"
    by (auto simp: float_literal_def)
  then show ?thesis
  proof cases
    case 4
    from scan_number_start [OF 4] JFloat show ?thesis by (auto simp: value_start_def)
  qed (simp_all add: JFloat value_start_def)
qed (simp_all add: value_start_def encode_str_def)

lemma pv_string:
  "parse_value (Suc n) d (DQ # r) = bind_res (scanstring r) (\<lambda>(str, rest). Ok (JStr str, rest))"
  by simp

lemma pv_number:
  assumes "scan_number s = Some nr"
  shows "parse_value (Suc n) d s = checked_number nr"
proof -
  obtain num r where nr: "nr = (num, r)" by (cases nr)
  from scan_number_start [OF assms [unfolded nr]]
  obtain c t where s: "s = c # t" "c = CHR ''-'' \<or> is_digit c"
    by blast
  then have "c \<noteq> DQ" "c \<noteq> CHR ''{''" "c \<noteq> CHR ''[''" "c \<noteq> CHR ''n''" "c \<noteq> CHR ''t''" "c \<noteq> CHR ''f''"
    by (auto simp: is_digit_def)
  with s(1) assms show ?thesis by simp
qed

lemma pv_null: "parse_value (Suc n) d (CHR ''n'' # CHR ''u'' # CHR ''l'' # CHR ''l'' # rest) = Ok (JNull, rest)"
  by simp

lemma pv_true: "parse_value (Suc n) d (CHR ''t'' # CHR ''r'' # CHR ''u'' # CHR ''e'' # rest) = Ok (JBool True, rest)"
  by simp

lemma pv_false:
  "parse_value (Suc n) d (CHR ''f'' # CHR ''a'' # CHR ''l'' # CHR ''s'' # CHR ''e'' # rest) = Ok (JBool False, rest)"
  by simp

lemma pv_nan: "parse_value (Suc n) d (CHR ''N'' # CHR ''a'' # CHR ''N'' # rest) = Ok (NaN, rest)"
  by (simp add: scan_number_def scan_int_part_def is_digit_def)

lemma pv_inf: "parse_value (Suc n) d (''Infinity'' @ rest) = Ok (JFloat ''Infinity'', rest)"
  by (simp add: scan_number_def scan_int_part_def is_digit_def)

lemma pv_neg_inf: "parse_value (Suc n) d (''-Infinity'' @ rest) = Ok (JFloat ''-Infinity'', rest)"
  by (simp add: scan_number_def scan_int_part_def is_digit_def)

lemma pv_array_empty: "parse_value (Suc n) (Suc d) (CHR ''['' # CHR '']'' # rest) = Ok (JArr [], rest)"
  by (simp add: skip_ws_def is_ws_def)

lemma pv_object_empty: "parse_value (Suc n) (Suc d) (CHR ''{'' # CHR ''}'' # rest) = Ok (JObj [], rest)"
  by (simp add: skip_ws_def is_ws_def)

lemma pv_array:
  "value_start c \<Longrightarrow>
   parse_value (Suc n) (Suc d) (CHR ''['' # c # r) =
   bind_res (parse_array_items n d (c # r)) (\<lambda>(xs, rest). Ok (JArr xs, rest))"
  using value_start_not [of c] by (simp add: skip_ws_start)

lemma pv_object:
  "parse_value (Suc n) (Suc d) (CHR ''{'' # DQ # r) =
   bind_res (parse_object_items n d (DQ # r)) (\<lambda>(ps, rest). Ok (JObj (dict_of_pairs ps), rest))"
  by (simp add: skip_ws_def is_ws_def)

lemma update_fresh: "k \<notin> fst ` set al \<Longrightarrow> AList.update k v al = al @ [(k, v)]"
  by (induction al) auto

lemma dict_of_pairs_acc:
  "distinct (map fst (acc @ ps)) \<Longrightarrow>
   foldl (\<lambda>d (k, v). AList.update k v d) acc ps = acc @ ps"
proof (induction ps arbitrary: acc)
  case Nil
  show ?case by simp
next
  case (Cons p ps)
  obtain k v where p: "p = (k, v)" by (cases p)
  from Cons.prems p have fresh: "k \<notin> fst ` set acc" by auto
  from Cons.prems p have "distinct (map fst ((acc @ [(k, v)]) @ ps))" by simp
  from Cons.IH [OF this] show ?case by (simp add: p update_fresh [OF fresh])
qed

lemma dict_of_pairs_distinct: "distinct (map fst ps) \<Longrightarrow> dict_of_pairs ps = ps"
  using dict_of_pairs_acc [of "[]" ps] by (simp add: dict_of_pairs_def)

lemma join_Cons: "xs \<noteq> [] \<Longrightarrow> join sep (x # xs) = x @ sep @ join sep xs"
  by (cases xs) simp_all

lemma join_start: "xs \<noteq> [] \<Longrightarrow> hd xs = c # r \<Longrightarrow> \<exists>r'. join sep xs = c # r'"
proof (cases xs)
  case Nil
  assume "xs \<noteq> []"
  with Nil show ?thesis by simp
next
  case (Cons a as)
  assume "hd xs = c # r"
  with Cons show ?thesis by (cases as) simp_all
qed

lemma ok_follow_simps:
  "ok_follow []" "ok_follow (CHR '','' # r)" "ok_follow (CHR '']'' # r)" "ok_follow (CHR ''}'' # r)"
  by (simp_all add: ok_follow_def)

lemma pai_last:
  "parse_value m d s = Ok (x, CHR '']'' # rest) \<Longrightarrow> parse_array_items (Suc m) d s = Ok ([x], rest)"
  by (simp add: skip_ws_def is_ws_def del: parse_value.simps)

lemma pai_more:
  "parse_value m d s = Ok (x, CHR '','' # CHR '' '' # t) \<Longrightarrow> skip_ws (CHR '' '' # t) = t \<Longrightarrow>
   parse_array_items m d t = Ok (xs, rest) \<Longrightarrow>
   parse_array_items (Suc m) d s = Ok (x # xs, rest)"
  by (subst parse_array_items.simps(2))
     (simp add: skip_ws_start is_ws_def del: parse_value.simps parse_array_items.simps)

lemma parse_array_dumps:
  assumes IH: "\<And>x n rest. x \<in> set xs \<Longrightarrow> length (json_dumps x) < n \<Longrightarrow> ok_follow rest \<Longrightarrow>
                 parse_value n d (json_dumps x @ rest) = Ok (x, rest)"
    and st: "\<And>x. x \<in> set xs \<Longrightarrow> \<exists>c r. json_dumps x = c # r \<and> value_start c"
    and ne: "xs \<noteq> []"
    and len: "length (join '', '' (map json_dumps xs)) + 1 < n"
  shows "parse_array_items n d (join '', '' (map json_dumps xs) @ CHR '']'' # rest) = Ok (xs, rest)"
  using IH st ne len
proof (induction xs arbitrary: n)
  case Nil
  then show ?case by simp
next
  case (Cons x xs)
  from Cons.prems(4) obtain m where n: "n = Suc m" by (cases n) auto
  show ?case
  proof (cases "xs = []")
    case True
    from Cons.prems(4) n True have "length (json_dumps x) < m" by simp
    from Cons.prems(1) [OF _ this, of "CHR '']'' # rest"]
    have "parse_value m d (json_dumps x @ CHR '']'' # rest) = Ok (x, CHR '']'' # rest)"
      by (simp add: ok_follow_simps)
    from pai_last [OF this] show ?thesis
      by (simp only: True n list.map join.simps)
  next
    case False
    let ?j = "join '', '' (map json_dumps xs)"
    let ?tail = "?j @ CHR '']'' # rest"
    have jc: "join '', '' (json_dumps x # map json_dumps xs) = json_dumps x @ '', '' @ ?j"
      using False by (simp add: join_Cons)
    from Cons.prems(4) n have lx: "length (json_dumps x) < m" and lt: "length ?j + 1 < m"
      by (simp_all add: jc)
    from Cons.prems(1) [OF _ lx, of "CHR '','' # CHR '' '' # ?tail"]
    have px: "parse_value m d (json_dumps x @ CHR '','' # CHR '' '' # ?tail)
              = Ok (x, CHR '','' # CHR '' '' # ?tail)"
      by (simp add: ok_follow_simps)
    from False obtain y where y: "y \<in> set xs" "hd xs = y" by (cases xs) auto
    from Cons.prems(2) [of y] y obtain c r where cr: "json_dumps y = c # r" "value_start c"
      by auto
    from False y cr have "hd (map json_dumps xs) = c # r" by (simp add: hd_map)
    with join_start [of "map json_dumps xs" c r "'', ''"] False
    obtain r' where j: "?j = c # r'" by auto
    have sk: "skip_ws (CHR '' '' # ?tail) = ?tail"
      using value_start_not [OF cr(2)] by (simp add: skip_ws_space j skip_ws_start)
    have rec: "parse_array_items m d ?tail = Ok (xs, rest)"
      by (rule Cons.IH [OF Cons.prems(1) Cons.prems(2) False lt]) simp_all
    from pai_more [OF px sk rec] show ?thesis
      by (simp only: n list.map jc append_assoc append_Cons append_Nil)
  qed
qed

lemma poi_last:
  "scanstring r = Ok (k, CHR '':'' # CHR '' '' # t) \<Longrightarrow> skip_ws (CHR '' '' # t) = t \<Longrightarrow>
   parse_value m d t = Ok (v, CHR ''}'' # rest) \<Longrightarrow>
   parse_object_items (Suc m) d (DQ # r) = Ok ([(k, v)], rest)"
  by (subst parse_object_items.simps(2))
     (simp add: skip_ws_start is_ws_def del: parse_value.simps parse_object_items.simps)

lemma poi_more:
  "scanstring r = Ok (k, CHR '':'' # CHR '' '' # t) \<Longrightarrow> skip_ws (CHR '' '' # t) = t \<Longrightarrow>
   parse_value m d t = Ok (v, CHR '','' # CHR '' '' # t2) \<Longrightarrow> skip_ws (CHR '' '' # t2) = t2 \<Longrightarrow>
   parse_object_items m d t2 = Ok (ps, rest) \<Longrightarrow>
   parse_object_items (Suc m) d (DQ # r) = Ok ((k, v) # ps, rest)"
  by (subst parse_object_items.simps(2))
     (simp add: skip_ws_start is_ws_def del: parse_value.simps parse_object_items.simps)

lemma skip_space_value:
  "json_dumps v = c # r \<Longrightarrow> value_start c \<Longrightarrow> skip_ws (CHR '' '' # json_dumps v @ t) = json_dumps v @ t"
  using value_start_not [of c] by (simp add: skip_ws_space skip_ws_start)

lemma parse_object_dumps:
  assumes IH: "\<And>k v n rest. (k, v) \<in> set kvs \<Longrightarrow> length (json_dumps v) < n \<Longrightarrow> ok_follow rest \<Longrightarrow>
                 parse_value n d (json_dumps v @ rest) = Ok (v, rest)"
    and st: "\<And>k v. (k, v) \<in> set kvs \<Longrightarrow> \<exists>c r. json_dumps v = c # r \<and> value_start c"
    and ne: "kvs \<noteq> []"
    and len: "length (join '', '' (map (\<lambda>(k, v). encode_str k @ '': '' @ json_dumps v) kvs)) + 1 < n"
  shows "parse_object_items n d
           (join '', '' (map (\<lambda>(k, v). encode_str k @ '': '' @ json_dumps v) kvs) @ CHR ''}'' # rest)
         = Ok (kvs, rest)"
  using IH st ne len
proof (induction kvs arbitrary: n)
  case Nil
  then show ?case by simp
next
  case (Cons kv kvs)
  let ?enc = "\<lambda>(k, v). encode_str k @ '': '' @ json_dumps v"
  obtain k v where kv: "kv = (k, v)" by (cases kv)
  from Cons.prems(4) obtain m where n: "n = Suc m" by (cases n) auto
  from Cons.prems(2) [of k v] kv obtain c r where cr: "json_dumps v = c # r" "value_start c"
    by auto
  let ?body = "concat (map escape_char k)"
  show ?case
  proof (cases "kvs = []")
    case True
    from Cons.prems(4) n True kv have "length (json_dumps v) < m"
      by (simp add: encode_str_def)
    from Cons.prems(1) [OF _ this, of k "CHR ''}'' # rest"] kv
    have pv: "parse_value m d (json_dumps v @ CHR ''}'' # rest) = Ok (v, CHR ''}'' # rest)"
      by (simp add: ok_follow_simps)
    have sc: "scanstring (?body @ DQ # CHR '':'' # CHR '' '' # json_dumps v @ CHR ''}'' # rest)
              = Ok (k, CHR '':'' # CHR '' '' # json_dumps v @ CHR ''}'' # rest)"
      by (rule scanstring_encode)
    from poi_last [OF sc skip_space_value [OF cr] pv] show ?thesis
      by (simp add: True n kv encode_str_def del: parse_object_items.simps)
  next
    case False
    let ?j = "join '', '' (map ?enc kvs)"
    let ?tail = "?j @ CHR ''}'' # rest"
    from Cons.prems(4) n kv have lx: "length (json_dumps v) < m" and lt: "length ?j + 1 < m"
      by (simp_all add: join_Cons False)
    from Cons.prems(1) [OF _ lx, of k "CHR '','' # CHR '' '' # ?tail"] kv
    have pv: "parse_value m d (json_dumps v @ CHR '','' # CHR '' '' # ?tail)
              = Ok (v, CHR '','' # CHR '' '' # ?tail)"
      by (simp add: ok_follow_simps)
    have sc: "scanstring (?body @ DQ # CHR '':'' # CHR '' '' # json_dumps v @ CHR '','' # CHR '' '' # ?tail)
              = Ok (k, CHR '':'' # CHR '' '' # json_dumps v @ CHR '','' # CHR '' '' # ?tail)"
      by (rule scanstring_encode)
    from False obtain k' v' where y: "hd kvs = (k', v')" by (cases "hd kvs")
    with False have "hd (map ?enc kvs) = DQ # (concat (map escape_char k') @ [DQ] @ '': '' @ json_dumps v')"
      by (simp add: hd_map encode_str_def)
    with join_start [of "map ?enc kvs" DQ _ "'', ''"] False
    obtain r' where j: "?j = DQ # r'" by auto
    have sk: "skip_ws (CHR '' '' # ?tail) = ?tail"
      by (simp only: j) (simp add: skip_ws_space skip_ws_start is_ws_def)
    have ih1: "parse_value n d (json_dumps v @ rest) = Ok (v, rest)"
      if "(k, v) \<in> set kvs" "length (json_dumps v) < n" "ok_follow rest" for k v n rest
      by (rule Cons.prems(1) [of k]) (use that in simp_all)
    have ih2: "\<exists>c r. json_dumps v = c # r \<and> value_start c" if "(k, v) \<in> set kvs" for k v
      by (rule Cons.prems(2) [of k]) (use that in simp)
    have rec: "parse_object_items m d ?tail = Ok (kvs, rest)"
      by (rule Cons.IH [OF ih1 ih2 False lt])
    from poi_more [OF sc skip_space_value [OF cr] pv sk rec] show ?thesis
      by (simp add: n kv join_Cons False encode_str_def
            del: parse_object_items.simps parse_value.simps)
  qed
qed

lemma checked_number_int:
  "length (show_int i) \<le> max_digits \<Longrightarrow> checked_number (JInt i, rest) = Ok (JInt i, rest)"
  by (simp add: checked_number_def)

lemma checked_number_float: "checked_number (JFloat r, rest) = Ok (JFloat r, rest)"
  by (simp add: checked_number_def)

lemma parse_dumps:
  "json_within d v \<Longrightarrow> length (json_dumps v) < n \<Longrightarrow> ok_follow rest \<Longrightarrow>
   parse_value n d (json_dumps v @ rest) = Ok (v, rest)"
proof (induction v arbitrary: n d rest)
  case JNull
  then obtain m where "n = Suc m" by (cases n) auto
  then show ?case using pv_null [of m d rest] by simp
next
  case (JBool b)
  then obtain m where "n = Suc m" by (cases n) auto
  then show ?case using pv_true [of m d rest] pv_false [of m d rest] by (cases b) simp_all
next
  case (JInt i)
  then obtain m where n: "n = Suc m" by (cases n) auto
  have "scan_number (show_int i @ rest) = Some (JInt i, rest)"
    using scan_number_append [OF JInt.prems(3) scan_number_show_int [of i]] by simp
  from pv_number [OF this, of m d] JInt.prems(1) show ?case
    by (simp only: n json_dumps.simps json_within.simps checked_number_int)
next
  case (JFloat r)
  then obtain m where n: "n = Suc m" by (cases n) auto
  from JFloat.prems(1) consider "r = ''NaN''" | "r = ''Infinity''" | "r = ''-Infinity''"
    | "scan_number r = Some (JFloat r, [])"
    by (auto simp: float_literal_def)
  then show ?case
  proof cases
    case 1
    then show ?thesis using pv_nan [of m d rest] by (simp add: n del: parse_value.simps)
  next
    case 2
    then show ?thesis using pv_inf [of m d rest] by (simp add: n del: parse_value.simps)
  next
    case 3
    then show ?thesis using pv_neg_inf [of m d rest] by (simp add: n del: parse_value.simps)
  next
    case 4
    have "scan_number (r @ rest) = Some (JFloat r, rest)"
      using scan_number_append [OF JFloat.prems(3) 4] by simp
    from pv_number [OF this, of m d] show ?thesis
      by (simp only: n json_dumps.simps checked_number_float)
  qed
next
  case (JStr s)
  then obtain m where n: "n = Suc m" by (cases n) auto
  show ?case
    by (simp add: n encode_str_def scanstring_encode del: parse_value.simps)
       (simp add: pv_string scanstring_encode del: parse_value.simps)
next
  case (JArr xs)
  then obtain m where n: "n = Suc m" by (cases n) auto
  from JArr.prems(1) obtain e where d: "d = Suc e" by (cases d) auto
  show ?case
  proof (cases "xs = []")
    case True
    then show ?thesis using pv_array_empty [of m e rest] by (simp add: n d del: parse_value.simps)
  next
    case False
    let ?j = "join '', '' (map json_dumps xs)"
    have wf: "\<And>x. x \<in> set xs \<Longrightarrow> json_within e x"
      using JArr.prems(1) by (simp add: d list_all_iff)
    have ih: "parse_value n e (json_dumps x @ rest) = Ok (x, rest)"
      if "x \<in> set xs" "length (json_dumps x) < n" "ok_follow rest" for x n rest
      by (rule JArr.IH [OF that(1) wf [OF that(1)] that(2) that(3)])
    have st: "\<exists>c r. json_dumps x = c # r \<and> value_start c" if "x \<in> set xs" for x
      by (rule dumps_start [OF wf [OF that]])
    from JArr.prems(2) n have len: "length ?j + 1 < m" by simp
    have items: "parse_array_items m e (?j @ CHR '']'' # rest) = Ok (xs, rest)"
      by (rule parse_array_dumps [OF ih st False len])
    from False obtain y where y: "y \<in> set xs" "hd xs = y" by (cases xs) auto
    from st [OF y(1)] obtain c r where cr: "json_dumps y = c # r" "value_start c" by blast
    from False y cr have "hd (map json_dumps xs) = c # r" by (simp add: hd_map)
    with join_start [of "map json_dumps xs" c r "'', ''"] False
    obtain r' where j: "?j = c # r'" by auto
    have "parse_value (Suc m) (Suc e) (CHR ''['' # c # r' @ CHR '']'' # rest) = Ok (JArr xs, rest)"
      using items by (simp only: pv_array [OF cr(2)] j append_Cons bind_res.simps prod.case)
    then show ?thesis
      by (simp only: n d json_dumps.simps j append_Cons append_Nil append_assoc)
  qed
next
  case (JObj kvs)
  then obtain m where n: "n = Suc m" by (cases n) auto
  from JObj.prems(1) obtain e where d: "d = Suc e" by (cases d) auto
  let ?enc = "\<lambda>(k, v). encode_str k @ '': '' @ json_dumps v"
  show ?case
  proof (cases "kvs = []")
    case True
    then show ?thesis using pv_object_empty [of m e rest] by (simp add: n d del: parse_value.simps)
  next
    case False
    let ?j = "join '', '' (map ?enc kvs)"
    have wf: "\<And>k v. (k, v) \<in> set kvs \<Longrightarrow> json_within e v"
      using JObj.prems(1) by (auto simp: d list_all_iff)
    have ih: "parse_value n e (json_dumps v @ rest) = Ok (v, rest)"
      if "(k, v) \<in> set kvs" "length (json_dumps v) < n" "ok_follow rest" for k v n rest
      by (rule JObj.IH [OF that(1) _ wf [OF that(1)] that(2) that(3)]) simp
    have st: "\<exists>c r. json_dumps v = c # r \<and> value_start c" if "(k, v) \<in> set kvs" for k v
      by (rule dumps_start [OF wf [OF that]])
    from JObj.prems(2) n have len: "length ?j + 1 < m" by simp
    have items: "parse_object_items m e (?j @ CHR ''}'' # rest) = Ok (kvs, rest)"
      by (rule parse_object_dumps [OF ih st False len])
    from False obtain k' v' where y: "hd kvs = (k', v')" by (cases "hd kvs")
    with False have "hd (map ?enc kvs) = DQ # (concat (map escape_char k') @ [DQ] @ '': '' @ json_dumps v')"
      by (simp add: hd_map encode_str_def)
    with join_start [of "map ?enc kvs" DQ _ "'', ''"] False
    obtain r' where j: "?j = DQ # r'" by auto
    have dd: "dict_of_pairs kvs = kvs"
      using JObj.prems(1) by (simp add: d dict_of_pairs_distinct)
    from items [unfolded j] have items': "parse_object_items m e (DQ # r' @ CHR ''}'' # rest) = Ok (kvs, rest)"
      by (simp only: append_Cons)
    have e: "json_dumps (JObj kvs) @ rest = CHR ''{'' # DQ # r' @ CHR ''}'' # rest"
      by (simp only: json_dumps.simps j) simp
    have "parse_value (Suc m) (Suc e) (CHR ''{'' # DQ # r' @ CHR ''}'' # rest) = Ok (JObj kvs, rest)"
      by (simp only: pv_object items' bind_res.simps prod.case dd)
    then show ?thesis
      by (simp only: n d e)
  qed
qed

text \<open>The round trip: \<^verbatim>\<open>json.loads(json.dumps(v))\<close> is \<open>v\<close>.\<close>

theorem json_loads_dumps: "wf_json v \<Longrightarrow> json_loads (json_dumps v) = Ok v"
proof -
  assume wf: "wf_json v"
  then have w: "json_within max_depth v" by (simp add: wf_json_def)
  from dumps_start [OF w] obtain c r where cr: "json_dumps v = c # r" "value_start c" by blast
  have sk: "skip_ws (json_dumps v) = json_dumps v"
    using value_start_not [OF cr(2)] by (simp add: cr(1) skip_ws_start)
  have "parse_value (2 * length (json_dumps v) + 1) max_depth (json_dumps v @ []) = Ok (v, [])"
    by (rule parse_dumps [OF w]) (simp_all add: ok_follow_simps cr(1))
  then show ?thesis
    by (simp add: json_loads_def sk skip_ws_Nil del: parse_value.simps)
qed

lemma takeWhile_digits_idem:
  "u = [] \<or> \<not> is_digit (hd u) \<Longrightarrow>
   takeWhile is_digit (takeWhile is_digit r @ u) = takeWhile is_digit r \<and>
   dropWhile is_digit (takeWhile is_digit r @ u) = u"
  using while_append_stop [of u "takeWhile is_digit r"]
  by (simp add: dropWhile_eq_Nil_conv) (metis set_takeWhileD)

lemma scan_int_part_rescan:
  assumes "scan_int_part s = Some (ip, s1)" "u = [] \<or> \<not> is_digit (hd u)"
  shows "scan_int_part (ip @ u) = Some (ip, u)"
proof -
  from assms(1) obtain c r where s: "s = c # r"
    by (cases s) (auto simp: scan_int_part_def)
  note w = takeWhile_digits_idem [OF assms(2)]
  show ?thesis
  proof (cases "c = CHR ''-''")
    case True
    with assms(1) s obtain d r' where r: "r = d # r'"
      by (cases r) (auto simp: scan_int_part_def)
    with assms(1) s True show ?thesis
      by (auto simp: scan_int_part_def w split: if_splits)
  next
    case False
    with assms(1) s show ?thesis
      by (auto simp: scan_int_part_def w split: if_splits)
  qed
qed

lemma scan_frac_no_dot: "u = [] \<or> hd u \<noteq> CHR ''.'' \<Longrightarrow> scan_frac u = ([], u)"
  by (cases u) (auto simp: scan_frac_def)

lemma scan_frac_cases:
  "scan_frac s = (frac, s2) \<Longrightarrow>
   frac = [] \<or> (\<exists>r. takeWhile is_digit r \<noteq> [] \<and> frac = CHR ''.'' # takeWhile is_digit r)"
  by (cases s) (auto simp: scan_frac_def split: if_splits)

lemma scan_frac_rescan:
  assumes "scan_frac s = (frac, s2)" "u = [] \<or> (\<not> is_digit (hd u) \<and> hd u \<noteq> CHR ''.'')"
  shows "scan_frac (frac @ u) = (frac, u)"
proof -
  from assms(2) have nd: "u = [] \<or> \<not> is_digit (hd u)" and ndot: "u = [] \<or> hd u \<noteq> CHR ''.''"
    by blast+
  from scan_frac_cases [OF assms(1)] show ?thesis
  proof
    assume "frac = []"
    then show ?thesis by (simp add: scan_frac_no_dot [OF ndot])
  next
    assume "\<exists>r. takeWhile is_digit r \<noteq> [] \<and> frac = CHR ''.'' # takeWhile is_digit r"
    then obtain r where r: "takeWhile is_digit r \<noteq> []" "frac = CHR ''.'' # takeWhile is_digit r"
      by blast
    then show ?thesis
      by (simp add: scan_frac_def takeWhile_digits_idem [OF nd])
  qed
qed

lemma scan_frac_hd: "scan_frac s = (frac, s2) \<Longrightarrow> frac = [] \<or> hd frac = CHR ''.''"
  by (cases s) (auto simp: scan_frac_def split: if_splits)

lemma scan_exp_rescan:
  assumes "scan_exp s = (ex, s3)"
  shows "scan_exp ex = (ex, [])"
proof -
  have w: "takeWhile is_digit (takeWhile is_digit r) = takeWhile is_digit r \<and>
           dropWhile is_digit (takeWhile is_digit r) = []" for r
    using takeWhile_digits_idem [of "[]" r] by simp
  have nd: "\<not> is_digit (CHR ''+'')" "\<not> is_digit (CHR ''-'')" by (simp_all add: is_digit_def)
  show ?thesis
  proof (cases s)
    case Nil
    with assms show ?thesis by (simp add: scan_exp_def)
  next
    case (Cons c r)
    show ?thesis
    proof (cases r)
      case Nil
      with Cons assms show ?thesis by (auto simp: scan_exp_def split: if_splits)
    next
      case (Cons x r2)
      show ?thesis
      proof (cases "x = CHR ''+'' \<or> x = CHR ''-''")
        case True
        with assms \<open>s = c # r\<close> Cons show ?thesis
          by (auto simp: scan_exp_def w split: if_splits)
      next
        case False
        show ?thesis
        proof (cases "is_digit x")
          case True
          then have pm: "x \<noteq> CHR ''+''" "x \<noteq> CHR ''-''" using nd by auto
          have tw: "takeWhile is_digit (x # r2) = x # takeWhile is_digit r2" using True by simp
          from assms \<open>s = c # r\<close> Cons False True show ?thesis
            by (auto simp: scan_exp_def w split: if_splits)
        next
          case nd': False
          with assms \<open>s = c # r\<close> Cons False show ?thesis
            by (auto simp: scan_exp_def split: if_splits)
        qed
      qed
    qed
  qed
qed

lemma scan_exp_hd: "scan_exp s = (ex, s3) \<Longrightarrow> ex = [] \<or> hd ex = CHR ''e'' \<or> hd ex = CHR ''E''"
  by (cases s) (auto simp: scan_exp_def Let_def split: if_splits prod.splits)

lemma scan_number_float_literal:
  assumes "scan_number s = Some (JFloat t, r)"
  shows "float_literal t"
proof -
  from assms obtain ip s1 where ip: "scan_int_part s = Some (ip, s1)"
    by (auto simp: scan_number_def split: option.splits)
  obtain frac s2 where fr: "scan_frac s1 = (frac, s2)" by (cases "scan_frac s1")
  obtain ex s3 where ex: "scan_exp s2 = (ex, s3)" by (cases "scan_exp s2")
  from assms ip fr ex have t: "t = ip @ frac @ ex" and ne: "frac \<noteq> [] \<or> ex \<noteq> []"
    by (auto simp: scan_number_def split: if_splits)
  have nde: "ex = [] \<or> (\<not> is_digit (hd ex) \<and> hd ex \<noteq> CHR ''.'')"
    using scan_exp_hd [OF ex] by (auto simp: is_digit_def)
  have ndf: "frac @ ex = [] \<or> \<not> is_digit (hd (frac @ ex))"
    using scan_frac_hd [OF fr] nde by (cases frac) (auto simp: is_digit_def)
  have "scan_number (ip @ frac @ ex) = Some (JFloat (ip @ frac @ ex), [])"
    using ne
    by (simp add: scan_number_def scan_int_part_rescan [OF ip ndf] scan_frac_rescan [OF fr nde]
          scan_exp_rescan [OF ex])
  then show ?thesis by (simp add: float_literal_def t)
qed

lemma bind_res_Ok: "bind_res m f = Ok y \<longleftrightarrow> (\<exists>x. m = Ok x \<and> f x = Ok y)"
  by (cases m) simp_all

lemma dict_acc_props:
  "distinct (map fst acc) \<Longrightarrow>
   distinct (map fst (foldl (\<lambda>d (k, v). AList.update k v d) acc ps)) \<and>
   set (foldl (\<lambda>d (k, v). AList.update k v d) acc ps) \<subseteq> set acc \<union> set ps"
proof (induction ps arbitrary: acc)
  case Nil
  then show ?case by simp
next
  case (Cons p ps)
  obtain k v where p: "p = (k, v)" by (cases p)
  have d: "distinct (map fst (AList.update k v acc))"
    using Cons.prems by (simp add: distinct_update)
  have s: "set (AList.update k v acc) \<subseteq> set acc \<union> {(k, v)}"
    by (induction acc) auto
  from Cons.IH [OF d] s show ?case by (auto simp: p)
qed

lemma dict_of_pairs_within:
  "list_all (\<lambda>(k, v). json_within d v) ps \<Longrightarrow> json_within (Suc d) (JObj (dict_of_pairs ps))"
  using dict_acc_props [of "[]" ps]
  by (auto simp: dict_of_pairs_def list_all_iff)

lemma checked_number_within:
  assumes "scan_number s = Some nr" "checked_number nr = Ok (num, r)"
  shows "json_within d num"
proof -
  obtain v r' where nr: "nr = (v, r')" by (cases nr)
  from assms(1) [unfolded nr] have shape: "(\<exists>i. v = JInt i) \<or> (\<exists>t. v = JFloat t)"
    by (auto simp: scan_number_def split: option.splits prod.splits if_splits)
  then show ?thesis
  proof
    assume "\<exists>i. v = JInt i"
    then obtain i where "v = JInt i" by blast
    with assms(2) nr show ?thesis
      by (auto simp: checked_number_def split: if_splits)
  next
    assume "\<exists>t. v = JFloat t"
    then obtain t where t: "v = JFloat t" by blast
    with assms(2) nr have "num = JFloat t" by (simp add: checked_number_def)
    with assms(1) nr t show ?thesis by (simp add: scan_number_float_literal)
  qed
qed

lemma float_literal_consts: "float_literal ''NaN''" "float_literal ''Infinity''" "float_literal ''-Infinity''"
  by (simp_all add: float_literal_def)

lemma pv_other:
  "c \<noteq> DQ \<Longrightarrow> c \<noteq> CHR ''{'' \<Longrightarrow> c \<noteq> CHR ''['' \<Longrightarrow>
   parse_value (Suc n) d (c # t) =
     (if take 4 (c # t) = ''null'' then Ok (JNull, drop 4 (c # t))
      else if take 4 (c # t) = ''true'' then Ok (JBool True, drop 4 (c # t))
      else if take 5 (c # t) = ''false'' then Ok (JBool False, drop 5 (c # t))
      else
        (case scan_number (c # t) of
           Some nr \<Rightarrow> checked_number nr
         | None \<Rightarrow>
             if take 3 (c # t) = ''NaN'' then Ok (JFloat ''NaN'', drop 3 (c # t))
             else if take 8 (c # t) = ''Infinity'' then Ok (JFloat ''Infinity'', drop 8 (c # t))
             else if take 9 (c # t) = ''-Infinity'' then Ok (JFloat ''-Infinity'', drop 9 (c # t))
             else Raise JSONDecodeError))"
  by (simp only: parse_value.simps list.case if_False)

lemma literal_chain:
  "(if b1 then Ok (JNull, r1)
    else if b2 then Ok (JBool True, r2)
    else if b3 then Ok (JBool False, r3)
    else (case sn of
            Some nr \<Rightarrow> checked_number nr
          | None \<Rightarrow>
              if b4 then Ok (JFloat ''NaN'', r4)
              else if b5 then Ok (JFloat ''Infinity'', r5)
              else if b6 then Ok (JFloat ''-Infinity'', r6)
              else Raise JSONDecodeError)) = Ok (v, r) \<Longrightarrow>
   v = JNull \<or> v = JBool True \<or> v = JBool False \<or> (\<exists>nr. sn = Some nr \<and> checked_number nr = Ok (v, r)) \<or>
   v = JFloat ''NaN'' \<or> v = JFloat ''Infinity'' \<or> v = JFloat ''-Infinity''"
  by (auto split: if_splits option.splits)

lemma pv_object_cases:
  "parse_value (Suc n) d (CHR ''{'' # t) = Ok (v, r) \<Longrightarrow>
   \<exists>e. d = Suc e \<and>
     (v = JObj [] \<or> (\<exists>s ps. parse_object_items n e s = Ok (ps, r) \<and> v = JObj (dict_of_pairs ps)))"
  by (cases d) (auto simp: bind_res_Ok split: list.splits if_splits)

lemma pv_array_cases:
  "parse_value (Suc n) d (CHR ''['' # t) = Ok (v, r) \<Longrightarrow>
   \<exists>e. d = Suc e \<and>
     (v = JArr [] \<or> (\<exists>s xs. parse_array_items n e s = Ok (xs, r) \<and> v = JArr xs))"
  by (cases d) (auto simp: bind_res_Ok split: list.splits if_splits)

lemma pv_string_cases: "parse_value (Suc n) d (DQ # t) = Ok (v, r) \<Longrightarrow> \<exists>str. v = JStr str"
  by (auto simp: bind_res_Ok)

lemma parse_value_Suc_within:
  assumes arr: "\<And>e s vs r. parse_array_items n e s = Ok (vs, r) \<Longrightarrow> list_all (json_within e) vs"
    and obj: "\<And>e s ps r. parse_object_items n e s = Ok (ps, r) \<Longrightarrow> list_all (\<lambda>(k, v). json_within e v) ps"
    and ok: "parse_value (Suc n) d s = Ok (v, r)"
  shows "json_within d v"
proof (cases s)
  case Nil
  with ok show ?thesis by simp
next
  case (Cons c t)
  consider "c = DQ" | "c = CHR ''{''" | "c = CHR ''[''"
    | "c \<noteq> DQ" "c \<noteq> CHR ''{''" "c \<noteq> CHR ''[''" by blast
  then show ?thesis
  proof cases
    case 1
    with ok Cons pv_string_cases [of n d t v r] show ?thesis by auto
  next
    case 2
    with ok Cons pv_object_cases [of n d t v r] show ?thesis
      by (auto dest!: obj intro: dict_of_pairs_within)
  next
    case 3
    with ok Cons pv_array_cases [of n d t v r] show ?thesis
      by (auto dest!: arr)
  next
    case 4
    from ok [unfolded Cons pv_other [OF 4]]
    have "v = JNull \<or> v = JBool True \<or> v = JBool False \<or>
          (\<exists>nr. scan_number (c # t) = Some nr \<and> checked_number nr = Ok (v, r)) \<or>
          v = JFloat ''NaN'' \<or> v = JFloat ''Infinity'' \<or> v = JFloat ''-Infinity''"
      by (rule literal_chain)
    then show ?thesis
      by (auto simp: float_literal_consts dest: checked_number_within)
  qed
qed

lemma pai_cases:
  assumes "parse_array_items (Suc n) d s = Ok (vs, r)"
  shows "\<exists>v r1. parse_value n d s = Ok (v, r1) \<and>
     (vs = [v] \<or> (\<exists>s' vs'. parse_array_items n d s' = Ok (vs', r) \<and> vs = v # vs'))"
proof -
  from assms obtain v r1 where v: "parse_value n d s = Ok (v, r1)"
    and rest: "(case skip_ws r1 of
                  [] \<Rightarrow> Raise JSONDecodeError
                | c # r' \<Rightarrow>
                    if c = CHR '']'' then Ok ([v], r')
                    else if c = CHR '','' then
                      bind_res (parse_array_items n d (skip_ws r')) (\<lambda>(vs, rest). Ok (v # vs, rest))
                    else Raise JSONDecodeError) = Ok (vs, r)"
    by (subst (asm) parse_array_items.simps(2)) (auto simp: bind_res_Ok)
  from rest have "vs = [v] \<or> (\<exists>s' vs'. parse_array_items n d s' = Ok (vs', r) \<and> vs = v # vs')"
    by (cases "skip_ws r1") (auto simp: bind_res_Ok split: if_splits)
  with v show ?thesis by blast
qed

lemma poi_cases:
  assumes "parse_object_items (Suc n) d s = Ok (ps, r)"
  shows "\<exists>k v s1 r1. parse_value n d s1 = Ok (v, r1) \<and>
     (ps = [(k, v)] \<or> (\<exists>s' ps'. parse_object_items n d s' = Ok (ps', r) \<and> ps = (k, v) # ps'))"
proof -
  from assms obtain t where s: "s = DQ # t"
    by (subst (asm) parse_object_items.simps(2)) (auto split: list.splits if_splits)
  from assms [unfolded s] obtain k r1 where k: "scanstring t = Ok (k, r1)"
    and rest1: "(case skip_ws r1 of
                   [] \<Rightarrow> Raise JSONDecodeError
                 | c1 # r2 \<Rightarrow>
                     if c1 \<noteq> CHR '':'' then Raise JSONDecodeError
                     else
                       bind_res (parse_value n d (skip_ws r2))
                         (\<lambda>(v, r3).
                            case skip_ws r3 of
                              [] \<Rightarrow> Raise JSONDecodeError
                            | c3 # r4 \<Rightarrow>
                                if c3 = CHR ''}'' then Ok ([(k, v)], r4)
                                else if c3 = CHR '','' then
                                  bind_res (parse_object_items n d (skip_ws r4))
                                    (\<lambda>(ps, rest). Ok ((k, v) # ps, rest))
                                else Raise JSONDecodeError)) = Ok (ps, r)"
    by (subst (asm) parse_object_items.simps(2)) (auto simp: bind_res_Ok)
  from rest1 obtain r2 v r3 where v: "parse_value n d (skip_ws r2) = Ok (v, r3)"
    and rest2: "(case skip_ws r3 of
                   [] \<Rightarrow> Raise JSONDecodeError
                 | c3 # r4 \<Rightarrow>
                     if c3 = CHR ''}'' then Ok ([(k, v)], r4)
                     else if c3 = CHR '','' then
                       bind_res (parse_object_items n d (skip_ws r4))
                         (\<lambda>(ps, rest). Ok ((k, v) # ps, rest))
                     else Raise JSONDecodeError) = Ok (ps, r)"
    by (cases "skip_ws r1") (auto simp: bind_res_Ok split: if_splits)
  from rest2 have "ps = [(k, v)] \<or> (\<exists>s' ps'. parse_object_items n d s' = Ok (ps', r) \<and> ps = (k, v) # ps')"
    by (cases "skip_ws r3") (auto simp: bind_res_Ok split: if_splits)
  with v show ?thesis by blast
qed

lemma parse_within:
  "(\<forall>d s v r. parse_value n d s = Ok (v, r) \<longrightarrow> json_within d v) \<and>
   (\<forall>d s vs r. parse_array_items n d s = Ok (vs, r) \<longrightarrow> list_all (json_within d) vs) \<and>
   (\<forall>d s ps r. parse_object_items n d s = Ok (ps, r) \<longrightarrow> list_all (\<lambda>(k, v). json_within d v) ps)"
proof (induction n)
  case 0
  show ?case by simp
next
  case (Suc n)
  from Suc have V: "\<And>d s v r. parse_value n d s = Ok (v, r) \<Longrightarrow> json_within d v"
    and A: "\<And>d s vs r. parse_array_items n d s = Ok (vs, r) \<Longrightarrow> list_all (json_within d) vs"
    and O: "\<And>d s ps r. parse_object_items n d s = Ok (ps, r) \<Longrightarrow> list_all (\<lambda>(k, v). json_within d v) ps"
    by blast+
  have v: "json_within d v" if "parse_value (Suc n) d s = Ok (v, r)" for d s v r
    by (rule parse_value_Suc_within [OF A O that])
  have a: "list_all (json_within d) vs" if "parse_array_items (Suc n) d s = Ok (vs, r)" for d s vs r
    using pai_cases [OF that] by (auto dest: V A)
  have ob: "list_all (\<lambda>(k, v). json_within d v) ps" if "parse_object_items (Suc n) d s = Ok (ps, r)"
    for d s ps r
    using poi_cases [OF that] by (auto dest: V O)
  from v a ob show ?case by blast
qed

text \<open>Whatever \<^verbatim>\<open>json.loads\<close> returns is well formed.\<close>

theorem json_loads_wf: "json_loads s = Ok v \<Longrightarrow> wf_json v"
proof -
  assume "json_loads s = Ok v"
  then obtain rest where "parse_value (2 * length s + 1) max_depth (skip_ws s) = Ok (v, rest)"
    by (auto simp: json_loads_def bind_res_Ok split: if_splits simp del: parse_value.simps)
  with parse_within [of "2 * length s + 1"] show ?thesis
    unfolding wf_json_def by blast
qed

section \<open>The fuel of the parser\<close>

lemma cons_str_Ok_iff: "cons_str c x = Ok (s, r) \<longleftrightarrow> (\<exists>s'. x = Ok (s', r) \<and> s = c # s')"
  by (cases x) (auto simp: cons_str_def)

lemma scanstring_length: "scanstring s = Ok (str, r) \<Longrightarrow> length r < length s"
proof (induction s arbitrary: str r rule: length_induct)
  case (1 s)
  from "1.prems" obtain c cs where s: "s = c # cs" by (cases s) auto
  have IH: "\<And>t str r. length t < length s \<Longrightarrow> scanstring t = Ok (str, r) \<Longrightarrow> length r < length t"
    using "1.IH" by blast
  show ?case
  proof (cases "c = DQ")
    case True
    with "1.prems" s show ?thesis by simp
  next
    case nq: False
    show ?thesis
    proof (cases "c = BS")
      case True
      with "1.prems" s nq obtain e r0 where cs: "cs = e # r0" by (cases cs) auto
      show ?thesis
      proof (cases "e = CHR ''u''")
        case u: True
        with "1.prems" s nq True cs obtain str' where "scanstring (drop 4 r0) = Ok (str', r)"
          by (auto simp: cons_str_Ok_iff split: res.splits)
        from IH [OF _ this] s cs have "length r < length (drop 4 r0)" by simp
        with s cs show ?thesis by simp
      next
        case False
        with "1.prems" s nq True cs obtain str' where "scanstring r0 = Ok (str', r)"
          by (auto simp: cons_str_Ok_iff split: option.splits)
        from IH [OF _ this] s cs show ?thesis by simp
      qed
    next
      case False
      with "1.prems" s nq obtain str' where "scanstring cs = Ok (str', r)"
        by (auto simp: cons_str_Ok_iff split: if_splits)
      from IH [OF _ this] s show ?thesis by simp
    qed
  qed
qed

lemma skip_ws_length: "length (skip_ws s) \<le> length s"
  by (simp add: skip_ws_def length_dropWhile_le)

lemma skip_ws_Cons_length: "skip_ws s = c # r \<Longrightarrow> length r < length s"
  using skip_ws_length [of s] by simp

lemma scan_int_part_length: "scan_int_part s = Some (ip, r) \<Longrightarrow> length r < length s"
proof -
  assume a: "scan_int_part s = Some (ip, r)"
  have dw: "length (dropWhile is_digit t) \<le> length t" for t by (rule length_dropWhile_le)
  from a obtain c t where s: "s = c # t" by (cases s) (auto simp: scan_int_part_def)
  show ?thesis
  proof (cases "c = CHR ''-''")
    case True
    with a s obtain d' t' where "t = d' # t'" by (cases t) (auto simp: scan_int_part_def)
    with a s True dw [of t'] show ?thesis
      by (auto simp: scan_int_part_def split: if_splits)
  next
    case False
    with a s dw [of t] show ?thesis
      by (auto simp: scan_int_part_def split: if_splits)
  qed
qed

lemma scan_frac_length: "length (snd (scan_frac s)) \<le> length s"
  using length_dropWhile_le [of is_digit "tl s"]
  by (cases s) (auto simp: scan_frac_def)

lemma scan_exp_length: "length (snd (scan_exp s)) \<le> length s"
proof (cases s)
  case Nil
  then show ?thesis by (simp add: scan_exp_def)
next
  case (Cons c r)
  show ?thesis
  proof (cases r)
    case Nil
    with Cons show ?thesis by (simp add: scan_exp_def)
  next
    case (Cons x r2)
    with \<open>s = c # r\<close> length_dropWhile_le [of is_digit r] length_dropWhile_le [of is_digit r2]
    show ?thesis by (auto simp: scan_exp_def)
  qed
qed

lemma scan_number_length: "scan_number s = Some (num, r) \<Longrightarrow> length r < length s"
proof -
  assume a: "scan_number s = Some (num, r)"
  then obtain ip s1 where ip: "scan_int_part s = Some (ip, s1)"
    by (auto simp: scan_number_def split: option.splits)
  from a ip have "r = snd (scan_exp (snd (scan_frac s1)))"
    by (auto simp: scan_number_def split: prod.splits if_splits)
  with scan_exp_length [of "snd (scan_frac s1)"] scan_frac_length [of s1] scan_int_part_length [OF ip]
  show ?thesis by simp
qed

lemma checked_number_rest: "checked_number (num, r) = Ok (v, r') \<Longrightarrow> r' = r"
  by (auto simp: checked_number_def split: json.splits if_splits)

lemma take_drop_length: "take k s = lit \<Longrightarrow> length lit = k \<Longrightarrow> 0 < k \<Longrightarrow> length (drop k s) < length s"
proof -
  assume t: "take k s = lit" and l: "length lit = k" and k: "0 < k"
  from t l have "min (length s) k = k" by (metis length_take)
  with k show ?thesis by simp
qed

lemma literal_chain_length:
  assumes "(if take 4 s = ''null'' then Ok (JNull, drop 4 s)
      else if take 4 s = ''true'' then Ok (JBool True, drop 4 s)
      else if take 5 s = ''false'' then Ok (JBool False, drop 5 s)
      else
        (case scan_number s of
           Some nr \<Rightarrow> checked_number nr
         | None \<Rightarrow>
             if take 3 s = ''NaN'' then Ok (JFloat ''NaN'', drop 3 s)
             else if take 8 s = ''Infinity'' then Ok (JFloat ''Infinity'', drop 8 s)
             else if take 9 s = ''-Infinity'' then Ok (JFloat ''-Infinity'', drop 9 s)
             else Raise JSONDecodeError)) = Ok (v, r)"
  shows "length r < length s"
proof -
  consider "take 4 s = ''null''" "r = drop 4 s" | "take 4 s = ''true''" "r = drop 4 s"
    | "take 5 s = ''false''" "r = drop 5 s"
    | nr where "scan_number s = Some nr" "checked_number nr = Ok (v, r)"
    | "take 3 s = ''NaN''" "r = drop 3 s" | "take 8 s = ''Infinity''" "r = drop 8 s"
    | "take 9 s = ''-Infinity''" "r = drop 9 s"
    using assms by (auto split: if_splits option.splits)
  then show ?thesis
  proof cases
    case (4 nr)
    obtain num r0 where nr: "nr = (num, r0)" by (cases nr)
    from 4 nr checked_number_rest [of num r0 v r] scan_number_length [of s num r0]
    show ?thesis by simp
  qed (auto dest: take_drop_length)
qed

lemma pv_other_length:
  assumes a: "c \<noteq> DQ" and b: "c \<noteq> CHR ''{''" and c: "c \<noteq> CHR ''[''"
    and ok: "parse_value (Suc n) d (c # t) = Ok (v, r)"
  shows "length r < length (c # t)"
  by (rule literal_chain_length [OF ok [unfolded pv_other [OF a b c]]])

lemma pv_object_cases2:
  "parse_value (Suc n) d (CHR ''{'' # t) = Ok (v, r) \<Longrightarrow>
   (\<exists>r0. skip_ws t = CHR ''}'' # r) \<or> (\<exists>e ps. parse_object_items n e (skip_ws t) = Ok (ps, r))"
  by (cases d; cases "skip_ws t") (auto simp: bind_res_Ok split: if_splits)

lemma pv_array_cases2:
  "parse_value (Suc n) d (CHR ''['' # t) = Ok (v, r) \<Longrightarrow>
   (\<exists>r0. skip_ws t = CHR '']'' # r) \<or> (\<exists>e xs. parse_array_items n e (skip_ws t) = Ok (xs, r))"
  by (cases d; cases "skip_ws t") (auto simp: bind_res_Ok split: if_splits)

lemma pv_string_cases2:
  "parse_value (Suc n) d (DQ # t) = Ok (v, r) \<Longrightarrow> \<exists>str. scanstring t = Ok (str, r)"
  by (auto simp: bind_res_Ok)

lemma parse_value_Suc_length:
  assumes arr: "\<And>e s vs r. parse_array_items n e s = Ok (vs, r) \<Longrightarrow> length r < length s"
    and obj: "\<And>e s ps r. parse_object_items n e s = Ok (ps, r) \<Longrightarrow> length r < length s"
    and ok: "parse_value (Suc n) d s = Ok (v, r)"
  shows "length r < length s"
proof (cases s)
  case Nil
  with ok show ?thesis by simp
next
  case (Cons c t)
  consider "c = DQ" | "c = CHR ''{''" | "c = CHR ''[''"
    | "c \<noteq> DQ" "c \<noteq> CHR ''{''" "c \<noteq> CHR ''[''" by blast
  then show ?thesis
  proof cases
    case 1
    with ok Cons pv_string_cases2 [of n d t v r] show ?thesis
      by (auto dest: scanstring_length)
  next
    case 2
    with ok Cons pv_object_cases2 [of n d t v r] skip_ws_length [of t] show ?thesis
      by (auto dest!: obj skip_ws_Cons_length)
  next
    case 3
    with ok Cons pv_array_cases2 [of n d t v r] skip_ws_length [of t] show ?thesis
      by (auto dest!: arr skip_ws_Cons_length)
  next
    case 4
    from pv_other_length [OF 4 ok [unfolded Cons]] Cons show ?thesis by simp
  qed
qed

lemma pai_cases2:
  assumes "parse_array_items (Suc n) d s = Ok (vs, r)"
  shows "\<exists>v r1. parse_value n d s = Ok (v, r1) \<and>
     ((\<exists>c. skip_ws r1 = c # r) \<or>
      (\<exists>c r' vs'. skip_ws r1 = c # r' \<and> parse_array_items n d (skip_ws r') = Ok (vs', r)))"
proof -
  from assms obtain v r1 where v: "parse_value n d s = Ok (v, r1)"
    and rest: "(case skip_ws r1 of
                  [] \<Rightarrow> Raise JSONDecodeError
                | c # r' \<Rightarrow>
                    if c = CHR '']'' then Ok ([v], r')
                    else if c = CHR '','' then
                      bind_res (parse_array_items n d (skip_ws r')) (\<lambda>(vs, rest). Ok (v # vs, rest))
                    else Raise JSONDecodeError) = Ok (vs, r)"
    by (subst (asm) parse_array_items.simps(2)) (auto simp: bind_res_Ok)
  from rest have "(\<exists>c. skip_ws r1 = c # r) \<or>
      (\<exists>c r' vs'. skip_ws r1 = c # r' \<and> parse_array_items n d (skip_ws r') = Ok (vs', r))"
    by (cases "skip_ws r1") (auto simp: bind_res_Ok split: if_splits)
  with v show ?thesis by blast
qed

lemma poi_cases2:
  assumes "parse_object_items (Suc n) d s = Ok (ps, r)"
  shows "\<exists>t k r1 c1 r2 v r3. s = DQ # t \<and> scanstring t = Ok (k, r1) \<and> skip_ws r1 = c1 # r2 \<and>
           parse_value n d (skip_ws r2) = Ok (v, r3) \<and>
     ((\<exists>c. skip_ws r3 = c # r) \<or>
      (\<exists>c r' ps'. skip_ws r3 = c # r' \<and> parse_object_items n d (skip_ws r') = Ok (ps', r)))"
proof -
  from assms obtain t where s: "s = DQ # t"
    by (subst (asm) parse_object_items.simps(2)) (auto split: list.splits if_splits)
  from assms [unfolded s] obtain k r1 where k: "scanstring t = Ok (k, r1)"
    and rest1: "(case skip_ws r1 of
                   [] \<Rightarrow> Raise JSONDecodeError
                 | c1 # r2 \<Rightarrow>
                     if c1 \<noteq> CHR '':'' then Raise JSONDecodeError
                     else
                       bind_res (parse_value n d (skip_ws r2))
                         (\<lambda>(v, r3).
                            case skip_ws r3 of
                              [] \<Rightarrow> Raise JSONDecodeError
                            | c3 # r4 \<Rightarrow>
                                if c3 = CHR ''}'' then Ok ([(k, v)], r4)
                                else if c3 = CHR '','' then
                                  bind_res (parse_object_items n d (skip_ws r4))
                                    (\<lambda>(ps, rest). Ok ((k, v) # ps, rest))
                                else Raise JSONDecodeError)) = Ok (ps, r)"
    by (subst (asm) parse_object_items.simps(2)) (auto simp: bind_res_Ok)
  from rest1 obtain c1 r2 v r3 where c1: "skip_ws r1 = c1 # r2"
    and v: "parse_value n d (skip_ws r2) = Ok (v, r3)"
    and rest2: "(case skip_ws r3 of
                   [] \<Rightarrow> Raise JSONDecodeError
                 | c3 # r4 \<Rightarrow>
                     if c3 = CHR ''}'' then Ok ([(k, v)], r4)
                     else if c3 = CHR '','' then
                       bind_res (parse_object_items n d (skip_ws r4))
                         (\<lambda>(ps, rest). Ok ((k, v) # ps, rest))
                     else Raise JSONDecodeError) = Ok (ps, r)"
    by (cases "skip_ws r1") (auto simp: bind_res_Ok split: if_splits)
  from rest2 have "(\<exists>c. skip_ws r3 = c # r) \<or>
      (\<exists>c r' ps'. skip_ws r3 = c # r' \<and> parse_object_items n d (skip_ws r') = Ok (ps', r))"
    by (cases "skip_ws r3") (auto simp: bind_res_Ok split: if_splits)
  with s k c1 v show ?thesis by blast
qed

lemma parse_length:
  "(\<forall>d s v r. parse_value n d s = Ok (v, r) \<longrightarrow> length r < length s) \<and>
   (\<forall>d s vs r. parse_array_items n d s = Ok (vs, r) \<longrightarrow> length r < length s) \<and>
   (\<forall>d s ps r. parse_object_items n d s = Ok (ps, r) \<longrightarrow> length r < length s)"
proof (induction n)
  case 0
  show ?case by simp
next
  case (Suc n)
  from Suc have V: "\<And>d s v r. parse_value n d s = Ok (v, r) \<Longrightarrow> length r < length s"
    and A: "\<And>d s vs r. parse_array_items n d s = Ok (vs, r) \<Longrightarrow> length r < length s"
    and O: "\<And>d s ps r. parse_object_items n d s = Ok (ps, r) \<Longrightarrow> length r < length s"
    by blast+
  have v: "length r < length s" if "parse_value (Suc n) d s = Ok (v, r)" for d s v r
    by (rule parse_value_Suc_length [OF A O that])
  have a: "length r < length s" if "parse_array_items (Suc n) d s = Ok (vs, r)" for d s vs r
  proof -
    from pai_cases2 [OF that] obtain v r1 where p: "parse_value n d s = Ok (v, r1)"
      and c: "(\<exists>c. skip_ws r1 = c # r) \<or>
        (\<exists>c r' vs'. skip_ws r1 = c # r' \<and> parse_array_items n d (skip_ws r') = Ok (vs', r))"
      by blast
    from c show ?thesis
    proof
      assume "\<exists>c. skip_ws r1 = c # r"
      with V [OF p] show ?thesis by (auto dest: skip_ws_Cons_length)
    next
      assume "\<exists>c r' vs'. skip_ws r1 = c # r' \<and> parse_array_items n d (skip_ws r') = Ok (vs', r)"
      then obtain c r' vs' where s1: "skip_ws r1 = c # r'"
        and a': "parse_array_items n d (skip_ws r') = Ok (vs', r)" by blast
      from A [OF a'] skip_ws_length [of r'] skip_ws_Cons_length [OF s1] V [OF p]
      show ?thesis by simp
    qed
  qed
  have ob: "length r < length s" if "parse_object_items (Suc n) d s = Ok (ps, r)" for d s ps r
  proof -
    from poi_cases2 [OF that] obtain t k r1 c1 r2 v r3 where s: "s = DQ # t"
      and k: "scanstring t = Ok (k, r1)" and c1: "skip_ws r1 = c1 # r2"
      and p: "parse_value n d (skip_ws r2) = Ok (v, r3)"
      and c: "(\<exists>c. skip_ws r3 = c # r) \<or>
        (\<exists>c r' ps'. skip_ws r3 = c # r' \<and> parse_object_items n d (skip_ws r') = Ok (ps', r))"
      by blast
    have l3: "length r3 < length s"
      using V [OF p] skip_ws_length [of r2] skip_ws_Cons_length [OF c1] scanstring_length [OF k] s
      by simp
    from c show ?thesis
    proof
      assume "\<exists>c. skip_ws r3 = c # r"
      with l3 show ?thesis by (auto dest: skip_ws_Cons_length)
    next
      assume "\<exists>c r' ps'. skip_ws r3 = c # r' \<and> parse_object_items n d (skip_ws r') = Ok (ps', r)"
      then obtain c r' ps' where s3: "skip_ws r3 = c # r'"
        and o': "parse_object_items n d (skip_ws r') = Ok (ps', r)" by blast
      from O [OF o'] skip_ws_length [of r'] skip_ws_Cons_length [OF s3] l3
      show ?thesis by simp
    qed
  qed
  from v a ob show ?case by blast
qed

lemma bind_res_cong2:
  "x = y \<Longrightarrow> (\<And>a. y = Ok a \<Longrightarrow> f a = g a) \<Longrightarrow> bind_res x f = bind_res y g"
  by (cases y) simp_all

lemma pv_step_eq:
  assumes A: "\<And>e s'. length s' < length s \<Longrightarrow> parse_array_items n e s' = parse_array_items m e s'"
    and O: "\<And>e s'. length s' < length s \<Longrightarrow> parse_object_items n e s' = parse_object_items m e s'"
  shows "parse_value (Suc n) d s = parse_value (Suc m) d s"
proof (cases s)
  case Nil
  then show ?thesis by simp
next
  case (Cons c t)
  have A': "parse_array_items n e (c' # r') = parse_array_items m e (c' # r')"
    if "skip_ws t = c' # r'" for e c' r'
    using A [of "c' # r'" e] skip_ws_length [of t] that Cons by simp
  have O': "parse_object_items n e (c' # r') = parse_object_items m e (c' # r')"
    if "skip_ws t = c' # r'" for e c' r'
    using O [of "c' # r'" e] skip_ws_length [of t] that Cons by simp
  consider "c = DQ" | "c = CHR ''{''" | "c = CHR ''[''"
    | "c \<noteq> DQ" "c \<noteq> CHR ''{''" "c \<noteq> CHR ''[''" by blast
  then show ?thesis
  proof cases
    case 1
    with Cons show ?thesis by simp
  next
    case 2
    show ?thesis
    proof (cases d)
      case 0
      with 2 Cons show ?thesis by simp
    next
      case (Suc e)
      show ?thesis
      proof (cases "skip_ws t")
        case Nil
        with 2 Cons Suc show ?thesis by simp
      next
        case (Cons c' r')
        from O' [OF Cons] 2 \<open>s = c # t\<close> Suc Cons show ?thesis by simp
      qed
    qed
  next
    case 3
    show ?thesis
    proof (cases d)
      case 0
      with 3 Cons show ?thesis by simp
    next
      case (Suc e)
      show ?thesis
      proof (cases "skip_ws t")
        case Nil
        with 3 Cons Suc show ?thesis by simp
      next
        case (Cons c' r')
        from A' [OF Cons] 3 \<open>s = c # t\<close> Suc Cons show ?thesis by simp
      qed
    qed
  next
    case 4
    show ?thesis unfolding Cons by (simp only: pv_other [OF 4])
  qed
qed

lemma pai_step_eq:
  assumes V: "parse_value n d s = parse_value m d s"
    and L: "\<And>v r. parse_value m d s = Ok (v, r) \<Longrightarrow> length r < length s"
    and A: "\<And>s'. length s' + 2 \<le> length s \<Longrightarrow> parse_array_items n d s' = parse_array_items m d s'"
  shows "parse_array_items (Suc n) d s = parse_array_items (Suc m) d s"
proof -
  have A': "parse_array_items n d (skip_ws r') = parse_array_items m d (skip_ws r')"
    if "parse_value m d s = Ok (v, r)" "skip_ws r = c # r'" for v r c r'
    using A [of "skip_ws r'"] L [OF that(1)] skip_ws_Cons_length [OF that(2)] skip_ws_length [of r']
    by simp
  show ?thesis
    unfolding parse_array_items.simps(2)
    by (rule bind_res_cong2 [OF V])
       (auto split: list.splits intro!: bind_res_cong2 intro: A'
             simp del: parse_value.simps parse_array_items.simps parse_object_items.simps)
qed

lemma poi_step_eq:
  assumes V: "\<And>s'. length s' + 3 \<le> length s \<Longrightarrow> parse_value n d s' = parse_value m d s'"
    and L: "\<And>s' v r. parse_value m d s' = Ok (v, r) \<Longrightarrow> length r < length s'"
    and O: "\<And>s'. length s' + 4 \<le> length s \<Longrightarrow> parse_object_items n d s' = parse_object_items m d s'"
  shows "parse_object_items (Suc n) d s = parse_object_items (Suc m) d s"
proof (cases s)
  case Nil
  then show ?thesis by simp
next
  case (Cons c t)
  have V': "parse_value n d (skip_ws r2) = parse_value m d (skip_ws r2)"
    if "scanstring t = Ok (k, r1)" "skip_ws r1 = c1 # r2" for k r1 c1 r2
    using V [of "skip_ws r2"] scanstring_length [OF that(1)] skip_ws_Cons_length [OF that(2)]
      skip_ws_length [of r2] Cons by simp
  have O': "parse_object_items n d (skip_ws r4) = parse_object_items m d (skip_ws r4)"
    if "scanstring t = Ok (k, r1)" "skip_ws r1 = c1 # r2" "parse_value m d (skip_ws r2) = Ok (v, r3)"
      "skip_ws r3 = c3 # r4" for k r1 c1 r2 v r3 c3 r4
    using O [of "skip_ws r4"] scanstring_length [OF that(1)] skip_ws_Cons_length [OF that(2)]
      skip_ws_length [of r2] L [OF that(3)] skip_ws_Cons_length [OF that(4)]
      skip_ws_length [of r4] Cons by simp
  show ?thesis
    unfolding parse_object_items.simps(2) Cons
    apply (auto split: list.splits intro!: bind_res_cong2
             simp del: parse_value.simps parse_array_items.simps parse_object_items.simps)
     apply (rule V', assumption, assumption)
    apply (rule O', assumption+)
    done
qed

lemma parse_stable:
  "(\<forall>d s. 2 * length s + 1 \<le> n \<longrightarrow> parse_value (Suc n) d s = parse_value n d s) \<and>
   (\<forall>d s. 2 * length s + 2 \<le> n \<longrightarrow> parse_array_items (Suc n) d s = parse_array_items n d s) \<and>
   (\<forall>d s. 2 * length s + 2 \<le> n \<longrightarrow> parse_object_items (Suc n) d s = parse_object_items n d s)"
proof (induction n)
  case 0
  show ?case by simp
next
  case (Suc n)
  from Suc have V: "\<And>d s. 2 * length s + 1 \<le> n \<Longrightarrow> parse_value (Suc n) d s = parse_value n d s"
    and A: "\<And>d s. 2 * length s + 2 \<le> n \<Longrightarrow> parse_array_items (Suc n) d s = parse_array_items n d s"
    and O: "\<And>d s. 2 * length s + 2 \<le> n \<Longrightarrow> parse_object_items (Suc n) d s = parse_object_items n d s"
    by blast+
  have L: "\<And>d s v r. parse_value n d s = Ok (v, r) \<Longrightarrow> length r < length s"
    using parse_length [of n] by blast
  have v: "parse_value (Suc (Suc n)) d s = parse_value (Suc n) d s" if "2 * length s + 1 \<le> Suc n" for d s
  proof (rule pv_step_eq)
    fix e and s' :: string assume "length s' < length s"
    with that have "2 * length s' + 2 \<le> n" by simp
    then show "parse_array_items (Suc n) e s' = parse_array_items n e s'" by (rule A)
  next
    fix e and s' :: string assume "length s' < length s"
    with that have "2 * length s' + 2 \<le> n" by simp
    then show "parse_object_items (Suc n) e s' = parse_object_items n e s'" by (rule O)
  qed
  have a: "parse_array_items (Suc (Suc n)) d s = parse_array_items (Suc n) d s"
    if "2 * length s + 2 \<le> Suc n" for d s
  proof (rule pai_step_eq)
    from that show "parse_value (Suc n) d s = parse_value n d s" by (intro V) simp
  next
    fix v r assume "parse_value n d s = Ok (v, r)"
    then show "length r < length s" by (rule L)
  next
    fix s' :: string assume "length s' + 2 \<le> length s"
    with that have "2 * length s' + 2 \<le> n" by simp
    then show "parse_array_items (Suc n) d s' = parse_array_items n d s'" by (rule A)
  qed
  have ob: "parse_object_items (Suc (Suc n)) d s = parse_object_items (Suc n) d s"
    if "2 * length s + 2 \<le> Suc n" for d s
  proof (rule poi_step_eq)
    fix s' :: string assume "length s' + 3 \<le> length s"
    with that have "2 * length s' + 1 \<le> n" by simp
    then show "parse_value (Suc n) d s' = parse_value n d s'" by (rule V)
  next
    fix s' :: string and v r assume "parse_value n d s' = Ok (v, r)"
    then show "length r < length s'" by (rule L)
  next
    fix s' :: string assume "length s' + 4 \<le> length s"
    with that have "2 * length s' + 2 \<le> n" by simp
    then show "parse_object_items (Suc n) d s' = parse_object_items n d s'" by (rule O)
  qed
  from v a ob show ?case by blast
qed

text \<open>
  The fuel of \<^verbatim>\<open>json_loads\<close> is never what stops the parser: any larger budget gives the same
  outcome.
\<close>

lemma parse_fuel_enough:
  "2 * length s + 1 \<le> n \<Longrightarrow> parse_value n d s = parse_value (2 * length s + 1) d s"
proof (induction n rule: dec_induct)
  case base
  show ?case by simp
next
  case (step n)
  from parse_stable [of n] step.hyps(1) have "parse_value (Suc n) d s = parse_value n d s" by blast
  with step.IH show ?case by simp
qed

lemma json_loads_fuel:
  "2 * length s + 1 \<le> n \<Longrightarrow>
   json_loads s =
     bind_res (parse_value n max_depth (skip_ws s))
       (\<lambda>(v, rest). if skip_ws rest = [] then Ok v else Raise JSONDecodeError)"
proof -
  assume n: "2 * length s + 1 \<le> n"
  have "2 * length (skip_ws s) + 1 \<le> 2 * length s + 1" using skip_ws_length [of s] by simp
  from parse_fuel_enough [OF this] parse_fuel_enough [of "skip_ws s" n max_depth] n skip_ws_length [of s]
  show ?thesis by (simp add: json_loads_def del: parse_value.simps)
qed

section \<open>Normalized rows\<close>

lemma json_within_mono: "json_within d v \<Longrightarrow> d \<le> e \<Longrightarrow> json_within e v"
proof (induction v arbitrary: d e)
  case (JArr xs)
  from JArr.prems(1) obtain d' where d: "d = Suc d'" by (cases d) auto
  with JArr.prems(2) obtain e' where e: "e = Suc e'" "d' \<le> e'" by (cases e) auto
  from JArr.prems(1) d have "\<And>x. x \<in> set xs \<Longrightarrow> json_within d' x" by (simp add: list_all_iff)
  then have "\<And>x. x \<in> set xs \<Longrightarrow> json_within e' x" using JArr.IH e(2) by blast
  then show ?case by (simp add: e(1) list_all_iff)
next
  case (JObj kvs)
  from JObj.prems(1) obtain d' where d: "d = Suc d'" by (cases d) auto
  with JObj.prems(2) obtain e' where e: "e = Suc e'" "d' \<le> e'" by (cases e) auto
  from JObj.prems(1) d have dist: "distinct (map fst kvs)"
    and w: "\<And>k v. (k, v) \<in> set kvs \<Longrightarrow> json_within d' v" by (auto simp: list_all_iff)
  have "json_within e' v" if "(k, v) \<in> set kvs" for k v
    by (rule JObj.IH [OF that _ w [OF that] e(2)]) simp
  with dist show ?case by (auto simp: e(1) list_all_iff)
qed simp_all

lemma max_depth_Suc: "max_depth = Suc 99"
  by (simp add: max_depth_def)

lemma within_member: "json_within (Suc d) (JArr xs) \<Longrightarrow> x \<in> set xs \<Longrightarrow> json_within (Suc d) x"
proof -
  assume "json_within (Suc d) (JArr xs)" "x \<in> set xs"
  then have "json_within d x" by (simp add: list_all_iff)
  then show ?thesis by (rule json_within_mono) simp
qed

lemma within_value:
  "json_within (Suc d) (JObj kvs) \<Longrightarrow> map_of kvs k = Some v \<Longrightarrow> json_within (Suc d) v"
proof -
  assume "json_within (Suc d) (JObj kvs)" "map_of kvs k = Some v"
  then have "json_within d v" by (auto simp: list_all_iff dest!: map_of_SomeD)
  then show ?thesis by (rule json_within_mono) simp
qed

lemma wf_json_member: "wf_json (JArr xs) \<Longrightarrow> x \<in> set xs \<Longrightarrow> wf_json x"
  unfolding wf_json_def max_depth_Suc by (rule within_member)

lemma wf_json_value: "wf_json (JObj kvs) \<Longrightarrow> map_of kvs k = Some v \<Longrightarrow> wf_json v"
  unfolding wf_json_def max_depth_Suc by (rule within_value)

lemma stations_of_wf:
  assumes "stations_of data = Ok st" "wf_json data"
  shows "wf_json st"
proof -
  from assms(1) obtain kvs where d: "data = JObj kvs"
    by (cases data) (auto simp: stations_of_def)
  show ?thesis
  proof (cases "map_of kvs ''stations''")
    case None
    with assms d show ?thesis by (simp add: stations_of_def)
  next
    case (Some v)
    with assms(1) d have "st = v" by (simp add: stations_of_def)
    with wf_json_value [OF assms(2) [unfolded d] Some] show ?thesis by simp
  qed
qed

lemma map_of_fill_row:
  "map_of (fill_row cols kvs) k =
   (if k \<in> set cols then Some (case map_of kvs k of Some v \<Rightarrow> v | None \<Rightarrow> NaN) else None)"
  by (induction cols) (auto simp: fill_row_def)

lemma map_of_map_col:
  "map_of (map (\<lambda>(c, v). if c = col then (c, f v) else (c, v)) r) k =
   (case map_of r k of None \<Rightarrow> None | Some v \<Rightarrow> Some (if k = col then f v else v))"
  by (induction r) auto

lemma add_new_set: "set (add_new cols ks) = set cols \<union> set ks"
  by (induction cols ks rule: add_new.induct) auto

lemma foldl_add_new_set: "set (foldl add_new cols kss) = set cols \<union> \<Union> (set ` set kss)"
  by (induction kss arbitrary: cols) (auto simp: add_new_set)

lemma pd_DataFrame_Ok:
  assumes "pd_DataFrame (JArr recs) = Ok df0"
  shows "list_all record_ok recs"
    and "rows df0 = map (fill_row (columns df0) \<circ> items) recs"
    and "set (columns df0) = \<Union> ((\<lambda>r. fst ` set (items r)) ` set recs)"
  using assms
  by (auto simp: pd_DataFrame_def Let_def foldl_add_new_set split: if_splits) force

lemma apply_dumps_Ok:
  assumes "apply_dumps col df = Ok df'"
  shows "col \<in> set (columns df)" and "columns df' = columns df"
    and "rows df' = map (map (\<lambda>(c, v). if c = col then (c, JStr (json_dumps v)) else (c, v))) (rows df)"
  using assms by (auto simp: apply_dumps_def split: if_splits)

lemma set_column_length: "length (rows (set_column col v df)) = length (rows df)"
  by (simp add: set_column_def)

lemma set_column_map_of:
  assumes "\<And>r. r \<in> set (rows df) \<Longrightarrow> map fst r = columns df" and i: "i < length (rows df)"
  shows "map_of (rows (set_column col v df) ! i) k =
         (if k = col then Some v else map_of (rows df ! i) k)"
proof -
  from i have keys: "map fst (rows df ! i) = columns df" by (simp add: assms(1))
  show ?thesis
  proof (cases "col \<in> set (columns df)")
    case True
    then have "col \<in> fst ` set (rows df ! i)" using keys by (metis set_map)
    then obtain w where "map_of (rows df ! i) col = Some w"
      by (metis domD dom_map_of_conv_image_fst)
    with True i show ?thesis
      by (simp add: set_column_def map_of_map_col split: option.splits)
  next
    case False
    then have "col \<notin> fst ` set (rows df ! i)" using keys by (metis set_map)
    then have "map_of (rows df ! i) col = None" by (simp add: map_of_eq_None_iff)
    with False i show ?thesis
      by (auto simp: set_column_def map_add_def split: option.splits)
  qed
qed

lemma map_fst_fill_row: "map fst (fill_row cols kvs) = cols"
  by (simp add: fill_row_def comp_def)

lemma map_fst_map_col:
  "map fst (map (\<lambda>(c, v). if c = col then (c, f v) else (c, v)) r) = map fst r"
  by (induction r) auto

lemma fetch_try_nonempty:
  "fetch_and_process_data net today url = Ok df \<Longrightarrow> \<not> empty df \<Longrightarrow>
   fetch_try net today url = Ok (Some df)"
  by (auto simp: fetch_and_process_data_def empty_def empty_frame_def
           split: res.splits option.splits)

lemma fetch_try_steps:
  assumes "fetch_try net today url = Ok (Some df)" "net url = Response ct text"
    "json_loads text = Ok data" "stations_of data = Ok st"
  shows "\<exists>df0 df1 df2. pd_DataFrame st = Ok df0 \<and> apply_dumps ''location'' df0 = Ok df1 \<and>
           apply_dumps ''prices'' df1 = Ok df2 \<and> df = set_column ''date'' (JStr today) df2"
  using assms
  by (auto simp: fetch_try_def Let_def response_json_def bind_res_Ok split: if_splits)

text \<open>
  C4. A feed is fetched, its body parses and \<open>recs\<close> is its record sequence, and the fetcher
  returns a frame that is not empty (so the run takes it into the batch). Then the frame
  has one row for each record, in order; the \<^verbatim>\<open>date\<close> of every row is the current date; and
  for a record that has a \<^verbatim>\<open>location\<close> (a \<^verbatim>\<open>prices\<close>) value, the cell of its row is a text
  that \<^verbatim>\<open>json.loads\<close>, which the query service applies to it, turns back into that value.
\<close>

theorem normalized_rows_roundtrip:
  assumes resp: "net url = Response ct text"
    and parsed: "json_loads text = Ok data"
    and st: "stations_of data = Ok (JArr recs)"
    and fetched: "fetch_and_process_data net today url = Ok df"
    and nonempty: "\<not> empty df"
  shows "length (rows df) = length recs \<and>
         (\<forall>i < length recs. map_of (rows df ! i) ''date'' = Some (JStr today)) \<and>
         (\<forall>i kvs v. i < length recs \<and> recs ! i = JObj kvs \<and> map_of kvs ''location'' = Some v \<longrightarrow>
            (\<exists>t. map_of (rows df ! i) ''location'' = Some (JStr t) \<and> json_loads t = Ok v)) \<and>
         (\<forall>i kvs v. i < length recs \<and> recs ! i = JObj kvs \<and> map_of kvs ''prices'' = Some v \<longrightarrow>
            (\<exists>t. map_of (rows df ! i) ''prices'' = Some (JStr t) \<and> json_loads t = Ok v))"
proof -
  from fetch_try_steps [OF fetch_try_nonempty [OF fetched nonempty] resp parsed st]
  obtain df0 df1 df2 where df0: "pd_DataFrame (JArr recs) = Ok df0"
    and df1: "apply_dumps ''location'' df0 = Ok df1"
    and df2: "apply_dumps ''prices'' df1 = Ok df2"
    and df: "df = set_column ''date'' (JStr today) df2"
    by blast
  let ?cols = "columns df0"
  let ?fl = "\<lambda>(c, v). if c = ''location'' then (c, JStr (json_dumps v)) else (c, v)"
  let ?fp = "\<lambda>(c, v). if c = ''prices'' then (c, JStr (json_dumps v)) else (c, v)"
  note d0 = pd_DataFrame_Ok [OF df0]
  note d1 = apply_dumps_Ok [OF df1]
  note d2 = apply_dumps_Ok [OF df2]
  have rows2: "rows df2 = map (\<lambda>r. map ?fp (map ?fl (fill_row ?cols (items r)))) recs"
    by (simp add: d2(3) d1(3) d0(2) comp_def)
  have cols2: "columns df2 = ?cols" by (simp add: d2(2) d1(2))
  have keys: "map fst r = columns df2" if "r \<in> set (rows df2)" for r
  proof -
    from that obtain ra where r: "r = map ?fp (map ?fl (fill_row ?cols (items ra)))"
      unfolding rows2 by (auto simp del: map_map)
    show ?thesis
      unfolding r cols2 by (simp only: map_fst_map_col map_fst_fill_row)
  qed
  have len2: "length (rows df2) = length recs" by (simp add: rows2)
  have cl: "''location'' \<in> set ?cols" by (rule d1(1))
  have cp: "''prices'' \<in> set ?cols" using d2(1) d1(2) by simp
  have wfd: "wf_json data" by (rule json_loads_wf [OF parsed])
  have wfr: "wf_json (JArr recs)" by (rule stations_of_wf [OF st wfd])
  have len: "length (rows df) = length recs"
    by (simp add: df set_column_length len2)
  have sc: "map_of (rows df ! i) k = (if k = ''date'' then Some (JStr today) else map_of (rows df2 ! i) k)"
    if "i < length recs" for i k
    unfolding df by (rule set_column_map_of [of df2, OF keys]) (simp_all add: len2 that)
  have dates: "\<forall>i < length recs. map_of (rows df ! i) ''date'' = Some (JStr today)"
    by (simp add: sc)
  have cellL: "\<exists>t. map_of (rows df ! i) ''location'' = Some (JStr t) \<and> json_loads t = Ok v"
    if i: "i < length recs" "recs ! i = JObj kvs" and v: "map_of kvs ''location'' = Some v" for i kvs v
  proof -
    have row2: "rows df2 ! i = map ?fp (map ?fl (fill_row ?cols kvs))"
      using i by (simp add: rows2 items_def)
    have "map_of (rows df2 ! i) ''location'' = Some (JStr (json_dumps v))"
      by (simp add: row2 map_of_map_col map_of_fill_row cl v del: map_map)
    then have c: "map_of (rows df ! i) ''location'' = Some (JStr (json_dumps v))"
      by (simp add: sc [OF i(1)])
    have "wf_json (JObj kvs)" using wfr i by (metis nth_mem wf_json_member)
    then have "wf_json v" using v by (rule wf_json_value)
    from c json_loads_dumps [OF this] show ?thesis by blast
  qed
  have cellP: "\<exists>t. map_of (rows df ! i) ''prices'' = Some (JStr t) \<and> json_loads t = Ok v"
    if i: "i < length recs" "recs ! i = JObj kvs" and v: "map_of kvs ''prices'' = Some v" for i kvs v
  proof -
    have row2: "rows df2 ! i = map ?fp (map ?fl (fill_row ?cols kvs))"
      using i by (simp add: rows2 items_def)
    have "map_of (rows df2 ! i) ''prices'' = Some (JStr (json_dumps v))"
      by (simp add: row2 map_of_map_col map_of_fill_row cp v del: map_map)
    then have c: "map_of (rows df ! i) ''prices'' = Some (JStr (json_dumps v))"
      by (simp add: sc [OF i(1)])
    have "wf_json (JObj kvs)" using wfr i by (metis nth_mem wf_json_member)
    then have "wf_json v" using v by (rule wf_json_value)
    from c json_loads_dumps [OF this] show ?thesis by blast
  qed
  from len dates cellL cellP show ?thesis by blast
qed

lemma example_fetch:
  "example_net ''https://www.tesco.com/fuel_prices/fuel_prices_data.json''
     = Response (Some ''application/json'') example_body"
  "json_loads example_body =
     Ok (JObj [(''last_updated'', JStr ''01/01/2024 06:00:00''), (''stations'', JArr [JObj example_record])])"
  "stations_of (JObj [(''last_updated'', JStr ''01/01/2024 06:00:00''), (''stations'', JArr [JObj example_record])])
     = Ok (JArr [JObj example_record])"
  "fetch_and_process_data example_net ''2024-01-01'' ''https://www.tesco.com/fuel_prices/fuel_prices_data.json''
     = Ok example_frame"
  "\<not> empty example_frame"
  by code_simp+

theorem normalized_rows_roundtrip_witness:
  "length (rows example_frame) = 1 \<and>
   map_of (rows example_frame ! 0) ''date'' = Some (JStr ''2024-01-01'') \<and>
   (\<exists>t. map_of (rows example_frame ! 0) ''location'' = Some (JStr t) \<and> json_loads t = Ok example_location) \<and>
   (\<exists>t. map_of (rows example_frame ! 0) ''prices'' = Some (JStr t) \<and>
        json_loads t = Ok (JObj (example_prices example_row)))"
proof -
  note t = normalized_rows_roundtrip [OF example_fetch]
  have l: "map_of example_record ''location'' = Some example_location"
    and p: "map_of example_record ''prices'' = Some (JObj (example_prices example_row))"
    by (simp_all add: example_record_def)
  from t l p show ?thesis by simp
qed

end
